theory Spec2Isabelle
  imports Main "HOL-Library.AList"
begin

section \<open>Bytes, statuses and exceptions\<close>

text \<open>
  A C \<^verbatim>\<open>uint8_t\<close> and an element of a Python \<^verbatim>\<open>bytes\<close> object is a \<^typ>\<open>char\<close>
  (an 8-bit value); a byte string is a \<^typ>\<open>char list\<close>. A Python \<^verbatim>\<open>str\<close> is represented
  by its UTF-8 encoding, so \<^verbatim>\<open>s.encode("utf-8")\<close> is the identity on the representation and
  \<^verbatim>\<open>b.decode("utf-8")\<close> succeeds exactly on well-formed UTF-8.
\<close>

type_synonym bytes = "char list"

abbreviation NL :: char where "NL \<equiv> CHR 0x0A"
abbreviation CR :: char where "CR \<equiv> CHR 0x0D"

definition is_digit :: "char \<Rightarrow> bool" where
  "is_digit c = (\<not> ((of_char c :: nat) < 48 \<or> (of_char c :: nat) > 57))"

text \<open>The \<^verbatim>\<open>Status\<close> enum of \<^verbatim>\<open>parser.pyx\<close>.\<close>

datatype Status = OK | ENOMEM | EBADFMT | EUNFINISH

text \<open>
  The exceptions the modelled code raises or lets through. \<^verbatim>\<open>ConnectionError\<close>,
  \<^verbatim>\<open>RuntimeError\<close> and \<^verbatim>\<open>OSError\<close> carry their message. Task cancellation
  (\<^verbatim>\<open>asyncio.CancelledError\<close>, which is not an \<^verbatim>\<open>Exception\<close>) is outside the model.
\<close>

datatype exn =
    NoMemoryError
  | BadFormatError
  | ConnectionError string
  | RuntimeError string
  | OSError string
  | TimeoutError
  | TypeError
  | AttributeError
  | IndexError
  | ValueError
  | UnicodeDecodeError
  | OtherError string

text \<open>
  What a call does: it returns a value, raises, never returns (\<open>Hang\<close>), or runs into
  undefined behaviour of the compiled C code (\<open>Undefined\<close>).
\<close>

datatype 'a outcome = Return 'a | Raise exn | Hang | Undefined

section \<open>The byte buffer (\<^verbatim>\<open>parser.pyx\<close>, class \<^verbatim>\<open>Buffer\<close>)\<close>

text \<open>
  The C array \<^verbatim>\<open>data\<close> is represented by its initialised prefix \<^verbatim>\<open>data[0..size)\<close>: the field
  \<open>data\<close> is that list and \<^verbatim>\<open>size\<close> is its length. \<open>cap\<close> is the allocated capacity; after
  \<^verbatim>\<open>clear()\<close> the pointer is \<^verbatim>\<open>NULL\<close>, the list is empty and \<open>cap\<close> is 0.
\<close>

record Buffer =
  data :: bytes
  cap :: nat

abbreviation buf_size :: "Buffer \<Rightarrow> nat" where
  "buf_size b \<equiv> length (data b)"

definition INITIAL_BUF_SIZE :: nat where "INITIAL_BUF_SIZE = 8192"
definition BUF_MAX_SIZE :: nat where "BUF_MAX_SIZE = 16 * 1024 * 1024"

definition Buffer_cinit :: Buffer where
  "Buffer_cinit = \<lparr>data = [], cap = INITIAL_BUF_SIZE\<rparr>"

definition clear :: "Buffer \<Rightarrow> Buffer" where
  "clear b = b\<lparr>data := [], cap := 0\<rparr>"

text \<open>
  The loop \<^verbatim>\<open>while cap < size: cap *= 2\<close> of \<^verbatim>\<open>grow\<close>. It need not terminate, so it is a
  partial function: \<open>None\<close> is "never leaves the loop". (\<^verbatim>\<open>cap\<close> is a \<^verbatim>\<open>size_t\<close>; the
  loop is entered with \<^verbatim>\<open>size\<close> at most 16 MiB, so the doubling cannot wrap.)
\<close>

partial_function (option) grow_loop :: "nat \<Rightarrow> nat \<Rightarrow> nat option" where
  "grow_loop c sz = (if c < sz then grow_loop (c * 2) sz else Some c)"

text \<open>
  \<^verbatim>\<open>grow\<close>. The parameter \<open>ra\<close> tells whether \<^verbatim>\<open>realloc\<close> to a capacity succeeds; when it
  returns \<^verbatim>\<open>NULL\<close> the buffer is left as it was.
\<close>

definition grow :: "(nat \<Rightarrow> bool) \<Rightarrow> Buffer \<Rightarrow> nat \<Rightarrow> (Status \<times> Buffer) option" where
  "grow ra b sz =
     (if sz > BUF_MAX_SIZE then Some (ENOMEM, b)
      else if sz \<le> cap b then Some (OK, b)
      else (case grow_loop (cap b) sz of
              None \<Rightarrow> None
            | Some c \<Rightarrow> if \<not> ra c then Some (ENOMEM, b) else Some (OK, b\<lparr>cap := c\<rparr>)))"

definition put :: "(nat \<Rightarrow> bool) \<Rightarrow> Buffer \<Rightarrow> bytes \<Rightarrow> (Status \<times> Buffer) option" where
  "put ra b bs =
     (case grow ra b (buf_size b + length bs) of
        None \<Rightarrow> None
      | Some (res, b') \<Rightarrow>
          if res = OK then Some (res, b'\<lparr>data := data b' @ bs\<rparr>) else Some (res, b'))"

definition remove :: "Buffer \<Rightarrow> nat \<Rightarrow> Buffer" where
  "remove b n =
     (if n > buf_size b then b\<lparr>data := []\<rparr>
      else b\<lparr>data := take (buf_size b - n) (drop n (data b))\<rparr>)"

section \<open>The frame parser (\<^verbatim>\<open>parser.pyx\<close>, class \<^verbatim>\<open>Parser\<close>)\<close>

text \<open>
  Pointers into the buffer are offsets from \<^verbatim>\<open>start\<close>. \<^verbatim>\<open>memchr(ptr, c, n)\<close> is the offset
  of the first \<open>c\<close> among the \<open>n\<close> bytes from \<open>p\<close>, or \<open>None\<close> for \<^verbatim>\<open>NULL\<close>.
\<close>

definition memchr :: "bytes \<Rightarrow> nat \<Rightarrow> char \<Rightarrow> nat \<Rightarrow> nat option" where
  "memchr d p c n =
     (let s = take n (drop p d)
      in if c \<in> set s then Some (p + length (takeWhile (\<lambda>x. x \<noteq> c) s)) else None)"

text \<open>
  \<^verbatim>\<open>atoi\<close> on a string that starts with a digit (the only way the parser calls it): the
  value of the leading run of digits, converted to a 32-bit \<^verbatim>\<open>int\<close>. At most 18 digits are
  passed, which fit a 64-bit \<^verbatim>\<open>long\<close>; the conversion to \<^verbatim>\<open>int\<close> keeps the low 32 bits
  (as the C library's \<^verbatim>\<open>(int) strtol(s, NULL, 10)\<close> does).
\<close>

definition to_int32 :: "int \<Rightarrow> int" where
  "to_int32 v = (v + 2 ^ 31) mod 2 ^ 32 - 2 ^ 31"

definition digit_val :: "char \<Rightarrow> int" where
  "digit_val c = int (of_char c) - 48"

definition atoi :: "bytes \<Rightarrow> int" where
  "atoi s = to_int32 (foldl (\<lambda>a c. a * 10 + digit_val c) 0 (takeWhile is_digit s))"

definition INT_MAX :: int where "INT_MAX = 2 ^ 31 - 1"

text \<open>
  The result of the C function \<^verbatim>\<open>parse\<close>: its status, the list \<^verbatim>\<open>values\<close> as it has
  been extended, and the buffer; or \<open>SignedOverflow\<close> where the \<^verbatim>\<open>int\<close> addition
  \<^verbatim>\<open>dis + sz\<close> overflows, which C leaves undefined.
\<close>

datatype parse_result = Parsed Status "bytes list" Buffer | SignedOverflow

text \<open>
  The \<^verbatim>\<open>while length > 0\<close> loop of \<^verbatim>\<open>Parser.parse\<close>, one call per iteration; \<open>ptr\<close> and \<open>ch\<close>
  are offsets, \<open>len\<close> is the C variable \<^verbatim>\<open>length\<close>. Leaving the loop by \<^verbatim>\<open>break\<close> or by its
  condition returns \<^verbatim>\<open>EUNFINISH\<close>.
\<close>

function parse_loop :: "Buffer \<Rightarrow> nat \<Rightarrow> int \<Rightarrow> bytes list \<Rightarrow> parse_result" where
  "parse_loop b ptr len vals =
     (if \<not> len > 0 then Parsed EUNFINISH vals b
      else (case memchr (data b) ptr NL (nat len) of
        None \<Rightarrow> Parsed EUNFINISH vals b
      | Some nl \<Rightarrow>
          (let ch = nl + 1; dis = int ch - int ptr in
           if dis = 1 \<or> (dis = 2 \<and> data b ! ptr = CR) then Parsed OK vals (remove b ch)
           else if \<not> is_digit (data b ! ptr) then Parsed EBADFMT vals b
           else if dis > 19 then Parsed EBADFMT vals b
           else (let sz = atoi (take (nat (dis - 1)) (drop ptr (data b))) in
             if sz < 0 then Parsed EBADFMT vals b
             else if dis + sz > INT_MAX then SignedOverflow
             else (let len' = len - (dis + sz); ptr' = ptr + nat (dis + sz) in
               if len' < 0 \<or> ptr' > buf_size b then Parsed EUNFINISH vals b
               else if len' \<ge> 1 \<and> data b ! ptr' = NL
                 then parse_loop b (ptr' + 1) (len' - 1) (vals @ [take (nat sz) (drop ch (data b))])
               else if len' \<ge> 2 \<and> data b ! ptr' = CR \<and> data b ! (ptr' + 1) = NL
                 then parse_loop b (ptr' + 2) (len' - 2) (vals @ [take (nat sz) (drop ch (data b))])
               else Parsed EUNFINISH vals b)))))"
  by pat_completeness auto

termination
  by (relation "measure (\<lambda>(b, ptr, len, vals). nat len)")
     (auto simp: memchr_def Let_def split: if_splits)

declare parse_loop.simps [simp del]

definition parse :: "Buffer \<Rightarrow> parse_result" where
  "parse b = parse_loop b 0 (int (buf_size b)) []"

section \<open>The reader (\<^verbatim>\<open>parser.pyx\<close>, class \<^verbatim>\<open>Reader\<close>)\<close>

text \<open>A reader is its parser, which is its buffer. \<^verbatim>\<open>Reader()\<close> starts from \<open>Buffer_cinit\<close>.\<close>

definition Reader_clear :: "Buffer \<Rightarrow> Buffer" where
  "Reader_clear b = clear b"

definition Reader_feed :: "(nat \<Rightarrow> bool) \<Rightarrow> Buffer \<Rightarrow> bytes \<Rightarrow> int outcome \<times> Buffer" where
  "Reader_feed ra b v =
     (case put ra b v of
        None \<Rightarrow> (Hang, b)
      | Some (res, b') \<Rightarrow>
          if res = OK then (Return (int (buf_size b')), b') else (Raise NoMemoryError, b'))"

definition Reader_get :: "Buffer \<Rightarrow> bytes list option outcome \<times> Buffer" where
  "Reader_get b =
     (case parse b of
        SignedOverflow \<Rightarrow> (Undefined, b)
      | Parsed res vals b' \<Rightarrow>
          if res = OK then (Return (Some vals), b')
          else if res = EBADFMT then (Raise BadFormatError, b')
          else (Return None, b'))"

section \<open>Feeding a reader in chunks\<close>

text \<open>
  The scenario of chunked input: the chunks are fed to a reader in order; after a chunk whose
  flag is set, \<^verbatim>\<open>get()\<close> is tried, and its frame (or its exception) ends the run, as in the
  loop of \<^verbatim>\<open>Connection.read_response\<close>; after the last chunk \<^verbatim>\<open>get()\<close> is called. One
  chunk with the flag unset is "feed everything, then parse once".
\<close>

fun feed_chunks :: "(nat \<Rightarrow> bool) \<Rightarrow> Buffer \<Rightarrow> (bytes \<times> bool) list
    \<Rightarrow> bytes list option outcome \<times> Buffer" where
  "feed_chunks ra b [] = Reader_get b"
| "feed_chunks ra b ((c, attempt) # cs) =
     (case Reader_feed ra b c of
        (Return n, b1) \<Rightarrow>
          if attempt then
            (case Reader_get b1 of
               (Return None, b2) \<Rightarrow> feed_chunks ra b2 cs
             | r \<Rightarrow> r)
          else feed_chunks ra b1 cs
      | (Raise e, b1) \<Rightarrow> (Raise e, b1)
      | (Hang, b1) \<Rightarrow> (Hang, b1)
      | (Undefined, b1) \<Rightarrow> (Undefined, b1))"

section \<open>The command encoder (\<^verbatim>\<open>encode.pyx\<close>)\<close>

text \<open>
  The Python objects that reach the encoder: an \<^verbatim>\<open>int\<close> (with \<^verbatim>\<open>bool\<close>, its subclass, apart
  because \<^verbatim>\<open>str(True)\<close> is \<^verbatim>\<open>"True"\<close>), a \<^verbatim>\<open>str\<close>, a \<^verbatim>\<open>bytes\<close>, \<^verbatim>\<open>None\<close>, a tuple, or an
  object of any other type.
\<close>

datatype pyobj =
    PyInt int
  | PyBool bool
  | PyStr string
  | PyBytes bytes
  | PyNone
  | PyTuple "pyobj list"
  | PyOther

text \<open>
  Decimal digits of a natural number (the digits \<^verbatim>\<open>b"%d"\<close> produces for a length), and
  Python's \<^verbatim>\<open>str\<close> of an \<^verbatim>\<open>int\<close>. CPython limits the conversions between \<^verbatim>\<open>int\<close> and decimal
  text: with the default setting, \<^verbatim>\<open>sys.int_info.default_max_str_digits\<close> = 4300, \<^verbatim>\<open>str\<close> of
  an integer of more than 4300 decimal digits (the sign not counted) raises \<^verbatim>\<open>ValueError\<close>,
  and so does \<^verbatim>\<open>int\<close> of a text with more than 4300 digit characters. The default setting
  is the one modelled; \<open>None\<close> is the \<^verbatim>\<open>ValueError\<close>.
\<close>

definition default_max_str_digits :: nat where
  "default_max_str_digits = 4300"

definition digit_char :: "nat \<Rightarrow> char" where
  "digit_char k = ''0123456789'' ! k"

fun decimal :: "nat \<Rightarrow> string" where
  "decimal n = (if n < 10 then [digit_char n] else decimal (n div 10) @ [digit_char (n mod 10)])"

declare decimal.simps [simp del]

definition signed_decimal :: "int \<Rightarrow> string" where
  "signed_decimal i = (if i < 0 then CHR ''-'' # decimal (nat (- i)) else decimal (nat i))"

definition str_of_int :: "int \<Rightarrow> string option" where
  "str_of_int i =
     (if default_max_str_digits < length (decimal (nat \<bar>i\<bar>)) then None
      else Some (signed_decimal i))"

text \<open>
  \<^verbatim>\<open>utf8_encode\<close> is declared to return \<^verbatim>\<open>bytes\<close>: Cython lets \<^verbatim>\<open>None\<close> through (here
  \<open>Return None\<close>) and raises \<^verbatim>\<open>TypeError\<close> for a value of any other type. An \<^verbatim>\<open>int\<close> goes
  through \<^verbatim>\<open>str(s)\<close> first, which may raise.
\<close>

definition utf8_encode :: "pyobj \<Rightarrow> bytes option outcome" where
  "utf8_encode s =
     (case s of
        PyInt i \<Rightarrow> (case str_of_int i of None \<Rightarrow> Raise ValueError | Some t \<Rightarrow> Return (Some t))
      | PyBool v \<Rightarrow> Return (Some (if v then ''True'' else ''False''))
      | PyStr t \<Rightarrow> Return (Some t)
      | PyBytes v \<Rightarrow> Return (Some v)
      | PyNone \<Rightarrow> Return None
      | PyTuple _ \<Rightarrow> Raise TypeError
      | PyOther \<Rightarrow> Raise TypeError)"

text \<open>The list comprehension \<^verbatim>\<open>[utf8_encode(x) for x in args]\<close>: the first failure ends it.\<close>

fun utf8_encode_all :: "pyobj list \<Rightarrow> bytes option list outcome" where
  "utf8_encode_all [] = Return []"
| "utf8_encode_all (x # xs) =
     (case utf8_encode x of
        Return v \<Rightarrow>
          (case utf8_encode_all xs of
             Return vs \<Rightarrow> Return (v # vs)
           | Raise e \<Rightarrow> Raise e
           | Hang \<Rightarrow> Hang
           | Undefined \<Rightarrow> Undefined)
      | Raise e \<Rightarrow> Raise e
      | Hang \<Rightarrow> Hang
      | Undefined \<Rightarrow> Undefined)"

text \<open>\<^verbatim>\<open>b"%d\n%s\n" % (len(byte), byte)\<close>.\<close>

definition format_token :: "bytes \<Rightarrow> bytes" where
  "format_token byte = decimal (length byte) @ [NL] @ byte @ [NL]"

text \<open>
  \<^verbatim>\<open>encode_command(str command, tuple args)\<close>. \<^verbatim>\<open>len(byte)\<close> of a \<^verbatim>\<open>None\<close> raises
  \<^verbatim>\<open>TypeError\<close> when the generator reaches it.
\<close>

definition encode_command :: "string \<Rightarrow> pyobj list \<Rightarrow> bytes outcome" where
  "encode_command command args =
     (let command = (if command = ''delete'' then ''del'' else command) in
      case utf8_encode_all args of
        Return vs \<Rightarrow>
          (let buf = Some command # vs in
           if None \<in> set buf then Raise TypeError
           else Return (concat (map (\<lambda>byte. format_token (the byte)) buf) @ [NL]))
      | Raise e \<Rightarrow> Raise e
      | Hang \<Rightarrow> Hang
      | Undefined \<Rightarrow> Undefined)"


section \<open>The response interpreter (\<^verbatim>\<open>response.pyx\<close>)\<close>

definition REQUEST_FOR_NO_RESPONSE :: "string set" where
  "REQUEST_FOR_NO_RESPONSE = {''ping'', ''qset''}"

definition REQUEST_FOR_INT_RESPONSE :: "string set" where
  "REQUEST_FOR_INT_RESPONSE =
     {''auth'', ''dbsize'',
      ''set'', ''setx'', ''setnx'', ''expire'', ''ttl'',
      ''del'', ''incr'', ''decr'', ''exists'', ''getbit'', ''setbit'',
      ''bitcount'', ''countbit'', ''strlen'', ''multi_set'', ''multi_del'',
      ''hset'', ''hdel'', ''hincr'', ''hdecr'', ''hexists'', ''hsize'', ''hclear'',
      ''multi_hset'', ''multi_hdel'',
      ''zset'', ''zget'', ''zdel'', ''zincr'', ''zdecr'', ''zexists'', ''zsize'', ''zrank'',
      ''zrrank'', ''zclear'',
      ''zcount'', ''zsum'', ''zremrangebyrank'', ''zremrangebyscore'', ''multi_zset'',
      ''multi_zdel'',
      ''qsize'', ''qclear'', ''qpush'', ''qpush_front'', ''qpush_back'', ''qtrim_front'',
      ''qtrim_back''}"

definition REQUEST_FOR_FLOAT_RESPONSE :: "string set" where
  "REQUEST_FOR_FLOAT_RESPONSE = {''zavg''}"

definition REQUEST_FOR_BYTE_RESPONSE :: "string set" where
  "REQUEST_FOR_BYTE_RESPONSE =
     {''version'', ''get'', ''getset'', ''substr'', ''hget'', ''qfront'', ''qback'', ''qget''}"

definition REQUEST_FOR_LIST_RESPONSE :: "string set" where
  "REQUEST_FOR_LIST_RESPONSE =
     {''info'', ''keys'', ''rkeys'', ''hlist'', ''hrlist'', ''hkeys'', ''zlist'', ''zrlist'',
      ''zkeys'', ''qlist'', ''qrlist'', ''qrange'', ''qslice'', ''qpop'', ''qpop_front'',
      ''qpop_back''}"

definition REQUEST_FOR_STR_MAP_RESPONSE :: "string set" where
  "REQUEST_FOR_STR_MAP_RESPONSE = {''multi_get'', ''hgetall'', ''multi_hget''}"

definition REQUEST_FOR_INT_MAP_RESPONSE :: "string set" where
  "REQUEST_FOR_INT_MAP_RESPONSE =
     {''multi_exists'', ''multi_hexists'', ''multi_hsize'', ''zrange'', ''zrrange'',
      ''zpop_front'', ''zpop_back'', ''multi_zget'', ''multi_zexists'', ''multi_zsize''}"

definition REQUEST_FOR_STR_MAP_SCAN_RESPONSE :: "string set" where
  "REQUEST_FOR_STR_MAP_SCAN_RESPONSE = {''scan'', ''rscan'', ''hscan'', ''hrscan''}"

definition REQUEST_FOR_INT_MAP_SCAN_RESPONSE :: "string set" where
  "REQUEST_FOR_INT_MAP_SCAN_RESPONSE = {''zscan'', ''zrscan''}"

text \<open>
  The values \<^verbatim>\<open>wrap_response\<close> returns. A \<^verbatim>\<open>dict\<close> keeps its keys in the order of their
  first insertion and a later value for a key replaces the earlier one in place: an
  association list updated with \<^const>\<open>AList.update\<close>. The type \<open>'f\<close> stands for Python's
  \<^verbatim>\<open>float\<close>.
\<close>

datatype 'f pyval =
    VNone
  | VInt int
  | VFloat 'f
  | VBytes bytes
  | VList "bytes list"
  | VStrMap "(bytes \<times> bytes) list"
  | VIntMap "(bytes \<times> int) list"
  | VStrScan "bytes option" "(bytes \<times> bytes) list"
  | VIntScan "bytes option" "(bytes \<times> int) list"

text \<open>
  Python's \<^verbatim>\<open>bytes.isdigit()\<close>: not empty, and every byte an ASCII digit.
\<close>

definition isdigit :: "bytes \<Rightarrow> bool" where
  "isdigit v = (v \<noteq> [] \<and> list_all is_digit v)"

text \<open>
  Python's \<^verbatim>\<open>int(b)\<close> on a \<^verbatim>\<open>bytes\<close> object, base 10: surrounding whitespace is dropped, one
  sign is allowed, and single underscores may stand between digits; a text with more than
  \<open>default_max_str_digits\<close> digit characters (leading zeros counted) is refused. \<open>None\<close> is
  \<^verbatim>\<open>ValueError\<close>.
\<close>

definition is_space :: "char \<Rightarrow> bool" where
  "is_space c = (c \<in> {CHR '' '', CHR 0x09, CHR 0x0A, CHR 0x0B, CHR 0x0C, CHR 0x0D})"

definition strip :: "bytes \<Rightarrow> bytes" where
  "strip s = rev (dropWhile is_space (rev (dropWhile is_space s)))"

fun underscores_ok :: "bytes \<Rightarrow> bool" where
  "underscores_ok [] = True"
| "underscores_ok [c] = (c \<noteq> CHR ''_'')"
| "underscores_ok (c # d # r) = (\<not> (c = CHR ''_'' \<and> d = CHR ''_'') \<and> underscores_ok (d # r))"

definition digits_value :: "bytes \<Rightarrow> int" where
  "digits_value ds = foldl (\<lambda>a c. a * 10 + digit_val c) 0 ds"

definition int_of_digits :: "bytes \<Rightarrow> int option" where
  "int_of_digits ds =
     (if ds = [] \<or> hd ds = CHR ''_'' \<or> \<not> underscores_ok ds
         \<or> \<not> list_all (\<lambda>c. is_digit c \<or> c = CHR ''_'') ds
         \<or> default_max_str_digits < length (filter is_digit ds)
      then None
      else Some (digits_value (filter is_digit ds)))"

definition py_int :: "bytes \<Rightarrow> int option" where
  "py_int s =
     (case strip s of
        [] \<Rightarrow> None
      | c # r \<Rightarrow>
          if c = CHR ''-'' then map_option uminus (int_of_digits r)
          else if c = CHR ''+'' then int_of_digits r
          else int_of_digits (c # r))"

text \<open>
  \<^verbatim>\<open>bytes.decode("utf-8")\<close>: the well-formed UTF-8 byte sequences (no overlong forms, no
  surrogates, nothing beyond U+10FFFF) decode, to the text they encode; anything else
  raises \<^verbatim>\<open>UnicodeDecodeError\<close> (\<open>None\<close>).
\<close>

definition cont_byte :: "nat \<Rightarrow> bool" where
  "cont_byte b = (128 \<le> b \<and> b \<le> 191)"

fun utf8_valid :: "nat list \<Rightarrow> bool" where
  "utf8_valid [] = True"
| "utf8_valid (a # rest) =
     (if a < 128 then utf8_valid rest
      else if 194 \<le> a \<and> a \<le> 223 then
        (case rest of b # r \<Rightarrow> cont_byte b \<and> utf8_valid r | _ \<Rightarrow> False)
      else if a = 224 then
        (case rest of b # c # r \<Rightarrow> 160 \<le> b \<and> b \<le> 191 \<and> cont_byte c \<and> utf8_valid r | _ \<Rightarrow> False)
      else if (225 \<le> a \<and> a \<le> 236) \<or> a = 238 \<or> a = 239 then
        (case rest of b # c # r \<Rightarrow> cont_byte b \<and> cont_byte c \<and> utf8_valid r | _ \<Rightarrow> False)
      else if a = 237 then
        (case rest of b # c # r \<Rightarrow> 128 \<le> b \<and> b \<le> 159 \<and> cont_byte c \<and> utf8_valid r | _ \<Rightarrow> False)
      else if a = 240 then
        (case rest of b # c # d # r \<Rightarrow>
           144 \<le> b \<and> b \<le> 191 \<and> cont_byte c \<and> cont_byte d \<and> utf8_valid r | _ \<Rightarrow> False)
      else if 241 \<le> a \<and> a \<le> 243 then
        (case rest of b # c # d # r \<Rightarrow>
           cont_byte b \<and> cont_byte c \<and> cont_byte d \<and> utf8_valid r | _ \<Rightarrow> False)
      else if a = 244 then
        (case rest of b # c # d # r \<Rightarrow>
           128 \<le> b \<and> b \<le> 143 \<and> cont_byte c \<and> cont_byte d \<and> utf8_valid r | _ \<Rightarrow> False)
      else False)"

definition utf8_decode :: "bytes \<Rightarrow> string option" where
  "utf8_decode v = (if utf8_valid (map of_char v) then Some v else None)"

text \<open>
  The loops \<^verbatim>\<open>for i in range(0, N, 2)\<close> that fill the dictionaries, with \<open>i\<close> the loop
  variable and the dictionary built so far as the last argument. \<open>N\<close> is even when they
  run, so \<^verbatim>\<open>resp[i + 1]\<close> is in range.
\<close>

function str_map_loop :: "bytes list \<Rightarrow> nat \<Rightarrow> nat \<Rightarrow> (bytes \<times> bytes) list \<Rightarrow> (bytes \<times> bytes) list" where
  "str_map_loop resp i N result =
     (if i < N then str_map_loop resp (i + 2) N (AList.update (resp ! i) (resp ! (i + 1)) result)
      else result)"
  by pat_completeness auto
termination
  by (relation "measure (\<lambda>(resp, i, N, result). N - i)") auto

declare str_map_loop.simps [simp del]

function int_map_loop :: "bytes list \<Rightarrow> nat \<Rightarrow> nat \<Rightarrow> (bytes \<times> int) list \<Rightarrow> (bytes \<times> int) list outcome" where
  "int_map_loop resp i N result =
     (if i < N then
        (let v = resp ! (i + 1) in
         if isdigit v then
           (case py_int v of
              None \<Rightarrow> Raise ValueError
            | Some n \<Rightarrow> int_map_loop resp (i + 2) N (AList.update (resp ! i) n result))
         else int_map_loop resp (i + 2) N (AList.update (resp ! i) (- 1) result))
      else Return result)"
  by pat_completeness auto
termination
  by (relation "measure (\<lambda>(resp, i, N, result). N - i)") auto

declare int_map_loop.simps [simp del]

definition to_str_map :: "bytes list \<Rightarrow> 'f pyval outcome" where
  "to_str_map resp =
     (let N = length resp in
      if \<not> N mod 2 = 0 then Raise (RuntimeError ''Invalid response'')
      else Return (VStrMap (str_map_loop resp 0 N [])))"

definition to_int_map :: "bytes list \<Rightarrow> 'f pyval outcome" where
  "to_int_map resp =
     (let N = length resp in
      if \<not> N mod 2 = 0 then Raise (RuntimeError ''Invalid response'')
      else (case int_map_loop resp 0 N [] of
              Return result \<Rightarrow> Return (VIntMap result)
            | Raise e \<Rightarrow> Raise e
            | Hang \<Rightarrow> Hang
            | Undefined \<Rightarrow> Undefined))"

definition to_str_map_for_scan :: "bytes list \<Rightarrow> 'f pyval outcome" where
  "to_str_map_for_scan resp =
     (let N = length resp in
      if \<not> N mod 2 = 0 then Raise (RuntimeError ''Invalid response'')
      else if N = 0 then Return (VStrScan None [])
      else Return (VStrScan (Some (resp ! (N - 2))) (str_map_loop resp 0 N [])))"

definition to_int_map_for_scan :: "bytes list \<Rightarrow> 'f pyval outcome" where
  "to_int_map_for_scan resp =
     (let N = length resp in
      if \<not> N mod 2 = 0 then Raise (RuntimeError ''Invalid response'')
      else if N = 0 then Return (VIntScan None [])
      else (case int_map_loop resp 0 N [] of
              Return result \<Rightarrow> Return (VIntScan (Some (resp ! (N - 2))) result)
            | Raise e \<Rightarrow> Raise e
            | Hang \<Rightarrow> Hang
            | Undefined \<Rightarrow> Undefined))"

text \<open>
  \<^verbatim>\<open>wrap_response(cmd, resp)\<close>. The module is compiled with \<^verbatim>\<open>boundscheck=False\<close>, so
  \<^verbatim>\<open>resp[0]\<close> on an empty body is an unchecked read: \<open>Undefined\<close>. \<open>flt\<close> is Python's
  \<^verbatim>\<open>float(b)\<close>, \<open>None\<close> where it raises \<^verbatim>\<open>ValueError\<close>.
\<close>

definition wrap_response :: "(bytes \<Rightarrow> 'f option) \<Rightarrow> string \<Rightarrow> bytes list \<Rightarrow> 'f pyval outcome" where
  "wrap_response flt cmd resp =
     (case resp of
        [] \<Rightarrow> Raise (ConnectionError ''Connection closed'')
      | status # resp \<Rightarrow>
          if status = ''not_found'' then Return VNone
          else if status = ''ok'' then
            (if cmd \<in> REQUEST_FOR_NO_RESPONSE then Return VNone
             else if cmd \<in> REQUEST_FOR_INT_RESPONSE then
               (case resp of
                  [] \<Rightarrow> Undefined
                | x # _ \<Rightarrow> (case py_int x of None \<Rightarrow> Raise ValueError | Some n \<Rightarrow> Return (VInt n)))
             else if cmd \<in> REQUEST_FOR_FLOAT_RESPONSE then
               (case resp of
                  [] \<Rightarrow> Undefined
                | x # _ \<Rightarrow> (case flt x of None \<Rightarrow> Raise ValueError | Some f \<Rightarrow> Return (VFloat f)))
             else if cmd \<in> REQUEST_FOR_BYTE_RESPONSE then
               (case resp of [] \<Rightarrow> Undefined | x # _ \<Rightarrow> Return (VBytes x))
             else if cmd \<in> REQUEST_FOR_LIST_RESPONSE then Return (VList resp)
             else if cmd \<in> REQUEST_FOR_STR_MAP_RESPONSE then to_str_map resp
             else if cmd \<in> REQUEST_FOR_INT_MAP_RESPONSE then to_int_map resp
             else if cmd \<in> REQUEST_FOR_STR_MAP_SCAN_RESPONSE then to_str_map_for_scan resp
             else if cmd \<in> REQUEST_FOR_INT_MAP_SCAN_RESPONSE then to_int_map_for_scan resp
             else Raise (RuntimeError (cmd @ '' is unknown command'')))
          else (case utf8_decode status of
                  None \<Rightarrow> Raise UnicodeDecodeError
                | Some text \<Rightarrow> Raise (RuntimeError text)))"


section \<open>Sequencing calls that may raise\<close>

text \<open>
  A call on a state returns an outcome and the new state. \<open>then_do\<close> runs the next call
  after a normal return and lets everything else through; \<open>on_raise\<close> is \<^verbatim>\<open>try ... except\<close>
  around a call.
\<close>

definition then_do :: "'a outcome \<times> 's \<Rightarrow> ('a \<Rightarrow> 's \<Rightarrow> 'b outcome \<times> 's) \<Rightarrow> 'b outcome \<times> 's" where
  "then_do m k =
     (case m of
        (Return x, s) \<Rightarrow> k x s
      | (Raise e, s) \<Rightarrow> (Raise e, s)
      | (Hang, s) \<Rightarrow> (Hang, s)
      | (Undefined, s) \<Rightarrow> (Undefined, s))"

definition on_raise :: "'a outcome \<times> 's \<Rightarrow> (exn \<Rightarrow> 's \<Rightarrow> 'a outcome \<times> 's) \<Rightarrow> 'a outcome \<times> 's" where
  "on_raise m h = (case m of (Raise e, s) \<Rightarrow> h e s | (r, s) \<Rightarrow> (r, s))"

text \<open>The exception classes the handlers of \<^verbatim>\<open>connection.pyx\<close> name.\<close>

definition is_ConnectionError :: "exn \<Rightarrow> bool" where
  "is_ConnectionError e = (case e of ConnectionError _ \<Rightarrow> True | _ \<Rightarrow> False)"

definition is_OSError :: "exn \<Rightarrow> bool" where
  "is_OSError e = (case e of OSError _ \<Rightarrow> True | ConnectionError _ \<Rightarrow> True | _ \<Rightarrow> False)"

section \<open>The world outside the process\<close>

text \<open>
  The operating system and the server are a script: the outcome of each successive call of
  \<^verbatim>\<open>asyncio.open_connection\<close>, of each read that runs, of \<^verbatim>\<open>writer.write\<close> with
  \<^verbatim>\<open>writer.drain\<close>, and of \<^verbatim>\<open>writer.close\<close> with \<^verbatim>\<open>writer.wait_closed\<close>, each consumed in
  order (\<open>None\<close> is success; a script that has run out means success, and for a read that
  nothing arrives any more). A read returns the bytes that arrived (none when the server has
  closed the connection) or raises. \<open>getpid\<close> is \<^verbatim>\<open>os.getpid()\<close>, \<open>realloc_ok\<close> tells which
  reallocations succeed, and \<open>trace\<close> records the calls of \<^verbatim>\<open>open_connection\<close>,
  \<^verbatim>\<open>reader.read\<close>, \<^verbatim>\<open>writer.write\<close> and \<^verbatim>\<open>writer.close\<close>, oldest first. \<^verbatim>\<open>setsockopt\<close> is
  taken to succeed and has no effect here.
\<close>

datatype read_event = ReadData bytes | ReadRaise exn

datatype io_event = Open | Close | Read | Write bytes

record World =
  getpid :: nat
  opens :: "exn option list"
  reads :: "read_event list"
  writes :: "exn option list"
  closes :: "exn option list"
  realloc_ok :: "nat \<Rightarrow> bool"
  trace :: "io_event list"

section \<open>A connection (\<^verbatim>\<open>asyncio/connection.pyx\<close>, class \<^verbatim>\<open>Connection\<close>)\<close>

text \<open>
  The fields that decide what the methods do: \<open>connected\<close> is "\<^verbatim>\<open>reader\<close> and \<^verbatim>\<open>writer\<close> are
  not \<^verbatim>\<open>None\<close>" (they are set and cleared together). Host, port and the socket options
  only reach the operating system.
\<close>

record Connection =
  pid :: nat
  password :: "string option"
  parser :: Buffer
  connected :: bool
  next_response :: "bytes list option"

definition Connection_init :: "string option \<Rightarrow> World \<Rightarrow> Connection" where
  "Connection_init pw w =
     \<lparr>pid = getpid w, password = pw, parser = Buffer_cinit, connected = False,
      next_response = None\<rparr>"

definition is_connected :: "Connection \<Rightarrow> bool" where
  "is_connected c = connected c"

text \<open>
  \<^verbatim>\<open>read_from_socket(wait)\<close>. Without a reader the attribute access raises
  \<^verbatim>\<open>AttributeError\<close>. A blocking read (\<open>wait\<close>) is awaited as it is: it takes the next event
  of the script, and does not return when nothing arrives any more. Otherwise the read is
  handed to \<^verbatim>\<open>asyncio.wait_for(coro, 0)\<close>, which, the timeout being 0, wraps it in a task
  and cancels that task before its first step: the read never runs, nothing is taken from
  the socket whatever has arrived there, and the \<^verbatim>\<open>TimeoutError\<close> makes the method return
  \<^verbatim>\<open>False\<close>.
\<close>

definition read_from_socket :: "bool \<Rightarrow> Connection \<times> World \<Rightarrow> bool outcome \<times> (Connection \<times> World)" where
  "read_from_socket wait cw =
     (case cw of (c, w) \<Rightarrow>
      if \<not> connected c then (Raise AttributeError, (c, w))
      else
        (let w1 = w\<lparr>trace := trace w @ [Read]\<rparr> in
         if \<not> wait then (Return False, (c, w1))
         else
           case reads w of
             [] \<Rightarrow> (Hang, (c, w1))
           | ev # rest \<Rightarrow>
               (let w2 = w1\<lparr>reads := rest\<rparr> in
                case ev of
                  ReadRaise e \<Rightarrow>
                    if e = TimeoutError then (Return False, (c, w2)) else (Raise e, (c, w2))
                | ReadData d \<Rightarrow>
                    if d = [] then (Raise (ConnectionError ''Server closed''), (c, w2))
                    else
                      (case Reader_feed (realloc_ok w) (parser c) d of
                         (Return n, b) \<Rightarrow> (Return True, (c\<lparr>parser := b\<rparr>, w2))
                       | (Raise e, b) \<Rightarrow>
                           if e = TimeoutError then (Return False, (c\<lparr>parser := b\<rparr>, w2))
                           else (Raise e, (c\<lparr>parser := b\<rparr>, w2))
                       | (Hang, b) \<Rightarrow> (Hang, (c\<lparr>parser := b\<rparr>, w2))
                       | (Undefined, b) \<Rightarrow> (Undefined, (c\<lparr>parser := b\<rparr>, w2))))))"

text \<open>\<^verbatim>\<open>self.parser.get()\<close> on the connection's reader.\<close>

definition parser_get :: "Connection \<times> World \<Rightarrow> bytes list option outcome \<times> (Connection \<times> World)" where
  "parser_get cw =
     (case cw of (c, w) \<Rightarrow>
      case Reader_get (parser c) of (r, b) \<Rightarrow> (r, (c\<lparr>parser := b\<rparr>, w)))"

text \<open>
  The loop \<^verbatim>\<open>while resp is None: await self.read_from_socket(True); resp = self.parser.get()\<close>
  of \<^verbatim>\<open>read_response\<close>, entered with the result of the first \<^verbatim>\<open>get()\<close>. Every blocking read
  that returns has consumed an event of the script.
\<close>

function read_loop :: "bytes list option \<Rightarrow> Connection \<times> World \<Rightarrow> bytes list outcome \<times> (Connection \<times> World)" where
  "read_loop resp cw =
     (case resp of
        Some frame \<Rightarrow> (Return frame, cw)
      | None \<Rightarrow>
          (case read_from_socket True cw of
             (Return _, cw1) \<Rightarrow>
               (case parser_get cw1 of
                  (Return resp', cw2) \<Rightarrow> read_loop resp' cw2
                | (Raise e, cw2) \<Rightarrow> (Raise e, cw2)
                | (Hang, cw2) \<Rightarrow> (Hang, cw2)
                | (Undefined, cw2) \<Rightarrow> (Undefined, cw2))
           | (Raise e, cw1) \<Rightarrow> (Raise e, cw1)
           | (Hang, cw1) \<Rightarrow> (Hang, cw1)
           | (Undefined, cw1) \<Rightarrow> (Undefined, cw1)))"
  by pat_completeness auto
termination
proof (relation "measure (\<lambda>(resp, cw). length (reads (snd cw)))", goal_cases)
  case 1
  show ?case by simp
next
  case (2 resp cw r cw1 x rr cw2 resp')
  obtain c w where cw: "cw = (c, w)" by (cases cw)
  from 2(2,3) cw have "length (reads (snd cw1)) < length (reads w)"
    by (auto simp: read_from_socket_def Let_def
        split: if_splits list.splits read_event.splits prod.splits outcome.splits)
  moreover from 2(4) have "reads (snd cw2) = reads (snd cw1)"
    by (auto simp: parser_get_def split: prod.splits)
  ultimately show ?case using cw by simp
qed

declare read_loop.simps [simp del]

definition read_response :: "Connection \<times> World \<Rightarrow> bytes list outcome \<times> (Connection \<times> World)" where
  "read_response cw =
     (case cw of (c, w) \<Rightarrow>
      case next_response c of
        Some resp \<Rightarrow> (Return resp, (c\<lparr>next_response := None\<rparr>, w))
      | None \<Rightarrow> then_do (parser_get (c, w)) read_loop)"

text \<open>
  \<^verbatim>\<open>send_command(self, str cmd, tuple args)\<close>: Cython checks the declared argument types when
  the method is called, and a value that is neither a tuple nor \<^verbatim>\<open>None\<close> raises
  \<^verbatim>\<open>TypeError\<close>; \<^verbatim>\<open>None\<close> fails in \<^verbatim>\<open>encode_command\<close>, which iterates over it.
\<close>

definition send_command :: "string \<Rightarrow> pyobj \<Rightarrow> Connection \<times> World \<Rightarrow> unit outcome \<times> (Connection \<times> World)" where
  "send_command cmd args cw =
     (case cw of (c, w) \<Rightarrow>
      case args of
        PyTuple xs \<Rightarrow>
          (case encode_command cmd xs of
             Return body \<Rightarrow>
               if \<not> connected c then (Raise AttributeError, (c, w))
               else
                 (let w1 = w\<lparr>trace := trace w @ [Write body]\<rparr> in
                  case writes w of
                    [] \<Rightarrow> (Return (), (c, w1))
                  | None # rest \<Rightarrow> (Return (), (c, w1\<lparr>writes := rest\<rparr>))
                  | Some e # rest \<Rightarrow> (Raise e, (c, w1\<lparr>writes := rest\<rparr>)))
           | Raise e \<Rightarrow> (Raise e, (c, w))
           | Hang \<Rightarrow> (Hang, (c, w))
           | Undefined \<Rightarrow> (Undefined, (c, w)))
      | _ \<Rightarrow> (Raise TypeError, (c, w)))"

text \<open>
  \<^verbatim>\<open>connect()\<close>. The password goes to \<^verbatim>\<open>send_command\<close> as it is, a \<^verbatim>\<open>str\<close>:
  \<^verbatim>\<open>await self.send_command("auth", self.password)\<close>.
\<close>

definition connect :: "Connection \<times> World \<Rightarrow> unit outcome \<times> (Connection \<times> World)" where
  "connect cw =
     (case cw of (c, w) \<Rightarrow>
      if is_connected c then (Return (), (c, w))
      else
        (let w1 = w\<lparr>trace := trace w @ [Open], opens := tl (opens w)\<rparr> in
         case (case opens w of [] \<Rightarrow> None | r # _ \<Rightarrow> r) of
           Some e \<Rightarrow> (Raise e, (c, w1))
         | None \<Rightarrow>
             (let c1 = c\<lparr>connected := True\<rparr> in
              case password c1 of
                None \<Rightarrow> (Return (), (c1, w1))
              | Some pw \<Rightarrow>
                  then_do (send_command ''auth'' (PyStr pw) (c1, w1))
                    (\<lambda>_ cw2.
                       on_raise (then_do (read_response cw2) (\<lambda>_ cw3. (Return (), cw3)))
                         (\<lambda>e cw3. (Raise (RuntimeError ''Invalid password''), cw3))))))"

text \<open>
  \<^verbatim>\<open>disconnect()\<close>: an \<^verbatim>\<open>OSError\<close> while closing is swallowed; any other exception leaves
  the method before the handles are cleared.
\<close>

definition disconnect :: "Connection \<times> World \<Rightarrow> unit outcome \<times> (Connection \<times> World)" where
  "disconnect cw =
     (case cw of (c, w) \<Rightarrow>
      if \<not> is_connected c then (Return (), (c, w))
      else if getpid w = pid c then
        (let w1 = w\<lparr>trace := trace w @ [Close], closes := tl (closes w)\<rparr> in
         case (case closes w of [] \<Rightarrow> None | r # _ \<Rightarrow> r) of
           None \<Rightarrow> (Return (), (c\<lparr>connected := False\<rparr>, w1))
         | Some e \<Rightarrow>
             if is_OSError e then (Return (), (c\<lparr>connected := False\<rparr>, w1))
             else (Raise e, (c, w1)))
      else (Return (), (c\<lparr>connected := False\<rparr>, w)))"

text \<open>\<^verbatim>\<open>in_use()\<close>, the idle probe.\<close>

definition in_use :: "Connection \<times> World \<Rightarrow> bool outcome \<times> (Connection \<times> World)" where
  "in_use cw =
     then_do
       (case cw of (c, w) \<Rightarrow>
          if next_response c = None then
            then_do (parser_get (c, w))
              (\<lambda>resp cw1. case cw1 of (c1, w1) \<Rightarrow> (Return (), (c1\<lparr>next_response := resp\<rparr>, w1)))
          else (Return (), (c, w)))
       (\<lambda>_ cw1.
          if next_response (fst cw1) = None then
            on_raise (read_from_socket False cw1)
              (\<lambda>e cw2. then_do (disconnect cw2) (\<lambda>_ cw3. (Raise e, cw3)))
          else (Return True, cw1))"


section \<open>The connection pool (\<^verbatim>\<open>asyncio/connection.pyx\<close>, class \<^verbatim>\<open>ConnectionPool\<close>)\<close>

text \<open>
  Connections are objects shared by reference: the pool's list and set hold references,
  which are indices into the store \<open>heap\<close> of all connections created so far. The pool's
  field \<^verbatim>\<open>pid\<close> is \<open>pool_pid\<close>; \<open>kw_password\<close> is what \<^verbatim>\<open>connection_kwargs\<close> gives a new
  connection. Operations run one after the other: the pool's fields are only touched
  in blocks without a suspension point, under \<^verbatim>\<open>lock\<close>, and \<^verbatim>\<open>fork_lock\<close> is free whenever
  \<^verbatim>\<open>checkpid\<close> asks for it.
\<close>

record ConnectionPool =
  pool_pid :: nat
  max_connections :: int
  kw_password :: "string option"
  created_connections :: int
  available_connections :: "nat list"
  in_use_connections :: "nat set"

record Sys =
  pool :: ConnectionPool
  heap :: "Connection list"
  world :: World

definition INT32_MAX :: int where "INT32_MAX = 2147483647"

definition reset :: "ConnectionPool \<Rightarrow> ConnectionPool" where
  "reset p = p\<lparr>created_connections := 0, available_connections := [], in_use_connections := {}\<rparr>"

definition ConnectionPool_init :: "int \<Rightarrow> string option \<Rightarrow> World \<Rightarrow> ConnectionPool" where
  "ConnectionPool_init m pw w =
     reset \<lparr>pool_pid = getpid w, max_connections = (if m > 0 then m else INT32_MAX),
            kw_password = pw, created_connections = 0, available_connections = [],
            in_use_connections = {}\<rparr>"

definition checkpid :: "Sys \<Rightarrow> Sys" where
  "checkpid s =
     (if pool_pid (pool s) \<noteq> getpid (world s) then s\<lparr>pool := reset (pool s)\<rparr> else s)"

definition owns_connection :: "ConnectionPool \<Rightarrow> Connection \<Rightarrow> bool" where
  "owns_connection p c = (pid c = pool_pid p)"

text \<open>A method of the connection referred to by \<open>r\<close>, run on the system.\<close>

definition on_conn ::
  "(Connection \<times> World \<Rightarrow> 'a outcome \<times> (Connection \<times> World)) \<Rightarrow> nat \<Rightarrow> Sys \<Rightarrow> 'a outcome \<times> Sys" where
  "on_conn f r s =
     (case f (heap s ! r, world s) of
        (res, (c, w)) \<Rightarrow> (res, s\<lparr>heap := (heap s)[r := c], world := w\<rparr>))"

text \<open>\<^verbatim>\<open>make_connection()\<close>: the new connection's reference is the next index of the store.\<close>

definition make_connection :: "Sys \<Rightarrow> nat outcome \<times> Sys" where
  "make_connection s =
     (if created_connections (pool s) \<ge> max_connections (pool s)
      then (Raise (ConnectionError ''Too many connections''), s)
      else (Return (length (heap s)),
            s\<lparr>pool := (pool s)\<lparr>created_connections := created_connections (pool s) + 1\<rparr>,
              heap := heap s @ [Connection_init (kw_password (pool s)) (world s)]\<rparr>))"

definition release :: "nat \<Rightarrow> Sys \<Rightarrow> unit outcome \<times> Sys" where
  "release r s0 =
     (let s = checkpid s0;
          p = pool s;
          p1 = (if r \<in> in_use_connections p
                then p\<lparr>in_use_connections := in_use_connections p - {r}\<rparr> else p)
      in if owns_connection p1 (heap s ! r)
         then (Return (), s\<lparr>pool := p1\<lparr>available_connections := available_connections p1 @ [r]\<rparr>\<rparr>)
         else on_conn disconnect r
                (s\<lparr>pool := p1\<lparr>created_connections := created_connections p1 - 1\<rparr>\<rparr>))"

text \<open>
  The block of \<^verbatim>\<open>get_connection\<close> under the lock: take the last available connection or
  make one, and put it into the set of connections in use.
\<close>

definition acquire :: "Sys \<Rightarrow> nat outcome \<times> Sys" where
  "acquire s =
     then_do
       (if length (available_connections (pool s)) > 0
        then (Return (last (available_connections (pool s))),
              s\<lparr>pool := (pool s)\<lparr>available_connections := butlast (available_connections (pool s))\<rparr>\<rparr>)
        else make_connection s)
       (\<lambda>r s1. (Return r,
                 s1\<lparr>pool := (pool s1)\<lparr>in_use_connections := insert r (in_use_connections (pool s1))\<rparr>\<rparr>))"

text \<open>
  The body of the outer \<^verbatim>\<open>try\<close> of \<^verbatim>\<open>get_connection\<close>: \<^verbatim>\<open>connect()\<close>, then the inner
  \<^verbatim>\<open>try\<close> with the probe, whose handler for \<^verbatim>\<open>ConnectionError\<close> disconnects, connects and
  probes again.
\<close>

definition lease_io :: "nat \<Rightarrow> Sys \<Rightarrow> unit outcome \<times> Sys" where
  "lease_io r s =
     then_do (on_conn connect r s)
       (\<lambda>_ s1.
          on_raise
            (then_do (on_conn in_use r s1)
               (\<lambda>b s2. if b then (Raise (ConnectionError ''Connection in use''), s2)
                        else (Return (), s2)))
            (\<lambda>e s2.
               if is_ConnectionError e then
                 then_do (on_conn disconnect r s2)
                   (\<lambda>_ s3.
                      then_do (on_conn connect r s3)
                        (\<lambda>_ s4.
                           then_do (on_conn in_use r s4)
                             (\<lambda>b s5. if b then (Raise (ConnectionError ''Connection not ready''), s5)
                                      else (Return (), s5))))
               else (Raise e, s2)))"

definition get_connection :: "Sys \<Rightarrow> nat outcome \<times> Sys" where
  "get_connection s0 =
     then_do (acquire (checkpid s0))
       (\<lambda>r s1.
          on_raise (then_do (lease_io r s1) (\<lambda>_ s2. (Return r, s2)))
            (\<lambda>e s2. then_do (release r s2) (\<lambda>_ s3. (Raise e, s3))))"

text \<open>
  \<^verbatim>\<open>ConnectionPool.disconnect()\<close>: every connection of the pool is disconnected, the
  exceptions are collected, and the first one is raised at the end. The connections in use
  are taken in the order of their references (a Python set has no specified order).
\<close>

fun disconnect_each :: "nat list \<Rightarrow> Sys \<Rightarrow> exn list \<times> Sys" where
  "disconnect_each [] s = ([], s)"
| "disconnect_each (r # rs) s =
     (case on_conn disconnect r s of
        (Raise e, s1) \<Rightarrow> (case disconnect_each rs s1 of (es, s2) \<Rightarrow> (e # es, s2))
      | (_, s1) \<Rightarrow> disconnect_each rs s1)"

definition pool_disconnect :: "Sys \<Rightarrow> unit outcome \<times> Sys" where
  "pool_disconnect s0 =
     (let s = checkpid s0;
          connections = available_connections (pool s)
                          @ sorted_list_of_set (in_use_connections (pool s))
      in case disconnect_each connections s of
           ([], s1) \<Rightarrow> (Return (), s1)
         | (e # _, s1) \<Rightarrow> (Raise e, s1))"

section \<open>Sequences of pool operations\<close>

text \<open>
  A client of the pool leases, releases a connection it holds, or disconnects the pool.
  \<open>run\<close> performs the operations in order from a state, whatever each one returns or
  raises. \<open>leased_only\<close> says that every release in the sequence is of a connection that is
  in the set of connections in use when the release starts.
\<close>

datatype pool_op = Lease | Release nat | DisconnectAll

definition step :: "pool_op \<Rightarrow> Sys \<Rightarrow> Sys" where
  "step opn s =
     (case opn of
        Lease \<Rightarrow> snd (get_connection s)
      | Release r \<Rightarrow> snd (release r s)
      | DisconnectAll \<Rightarrow> snd (pool_disconnect s))"



definition fresh_system :: "int \<Rightarrow> string option \<Rightarrow> World \<Rightarrow> Sys" where
  "fresh_system m pw w = \<lparr>pool = ConnectionPool_init m pw w, heap = [], world = w\<rparr>"


section \<open>Auxiliary notions for the proofs about the parser\<close>

text \<open>
  One iteration of the loop of \<open>parse_loop\<close>, as a value: what the iteration decides. The
  definition repeats the body of \<open>parse_loop\<close>; \<open>parse_loop_body\<close> below proves that
  \<open>parse_loop\<close> is this body followed by the decision.
\<close>

datatype step = SEnd nat | SBad | SMore | SOvf | SBlob nat int bytes

definition parse_body :: "bytes \<Rightarrow> nat \<Rightarrow> int \<Rightarrow> step" where
  "parse_body d ptr len =
     (if \<not> len > 0 then SMore
      else (case memchr d ptr NL (nat len) of
        None \<Rightarrow> SMore
      | Some nl \<Rightarrow>
          (let ch = nl + 1; dis = int ch - int ptr in
           if dis = 1 \<or> (dis = 2 \<and> d ! ptr = CR) then SEnd ch
           else if \<not> is_digit (d ! ptr) then SBad
           else if dis > 19 then SBad
           else (let sz = atoi (take (nat (dis - 1)) (drop ptr d)) in
             if sz < 0 then SBad
             else if dis + sz > INT_MAX then SOvf
             else (let len' = len - (dis + sz); ptr' = ptr + nat (dis + sz) in
               if len' < 0 \<or> ptr' > length d then SMore
               else if len' \<ge> 1 \<and> d ! ptr' = NL
                 then SBlob (ptr' + 1) (len' - 1) (take (nat sz) (drop ch d))
               else if len' \<ge> 2 \<and> d ! ptr' = CR \<and> d ! (ptr' + 1) = NL
                 then SBlob (ptr' + 2) (len' - 2) (take (nat sz) (drop ch d))
               else SMore)))))"

text \<open>
  The conditions of the body, on offsets: \<open>nl\<close> is the offset of the first newline from
  \<open>p\<close>, \<open>q\<close> the offset after the payload.
\<close>

definition is_end :: "bytes \<Rightarrow> nat \<Rightarrow> nat \<Rightarrow> bool" where
  "is_end d p nl = (nl = p \<or> (nl = p + 1 \<and> d ! p = CR))"

definition hdr_size :: "bytes \<Rightarrow> nat \<Rightarrow> nat \<Rightarrow> int" where
  "hdr_size d p nl = atoi (take (nl - p) (drop p d))"

definition hdr_bad :: "bytes \<Rightarrow> nat \<Rightarrow> nat \<Rightarrow> bool" where
  "hdr_bad d p nl = (\<not> is_digit (d ! p) \<or> nl - p \<ge> 19 \<or> hdr_size d p nl < 0)"

definition hdr_ovf :: "bytes \<Rightarrow> nat \<Rightarrow> nat \<Rightarrow> bool" where
  "hdr_ovf d p nl = (int (nl + 1 - p) + hdr_size d p nl > INT_MAX)"

definition term_at :: "bytes \<Rightarrow> nat \<Rightarrow> nat \<Rightarrow> bool" where
  "term_at d q p = ((q < length d \<and> d ! q = NL \<and> p = q + 1) \<or>
                    (q + 1 < length d \<and> d ! q = CR \<and> d ! (q + 1) = NL \<and> p = q + 2))"

section \<open>Notions used to state the properties of the encoder and the interpreter\<close>

text \<open>A \<^verbatim>\<open>float\<close> conversion that always raises, for closed examples.\<close>

definition no_float :: "bytes \<Rightarrow> unit option" where
  "no_float x = None"

text \<open>
  The value the INT_MAP classes give a blob: its decimal value when \<^verbatim>\<open>isdigit()\<close> holds, and -1
  otherwise; a blob of digits too long for \<^verbatim>\<open>int\<close>, and a body none of whose values (the
  blobs at the odd positions) is one; the pairs of a body, by position; and a dictionary
  after inserting pairs in order.
\<close>

definition int_value :: "bytes \<Rightarrow> int" where
  "int_value v = (if isdigit v then digits_value v else - 1)"

definition over_limit :: "bytes \<Rightarrow> bool" where
  "over_limit v = (isdigit v \<and> default_max_str_digits < length v)"

definition values_within_limit :: "bytes list \<Rightarrow> bool" where
  "values_within_limit body =
     list_all (\<lambda>i. \<not> over_limit (body ! (2 * i + 1))) [0..<length body div 2]"

definition int_pairs :: "bytes list \<Rightarrow> (bytes \<times> int) list" where
  "int_pairs body = map (\<lambda>i. (body ! (2 * i), int_value (body ! (2 * i + 1)))) [0..<length body div 2]"

definition dict_insert_all :: "('k \<times> 'v) list \<Rightarrow> ('k \<times> 'v) list \<Rightarrow> ('k \<times> 'v) list" where
  "dict_insert_all d ps = foldl (\<lambda>d (k, v). AList.update k v d) d ps"




text \<open>A command that belongs to one of the nine response classes.\<close>

definition known_command :: "string \<Rightarrow> bool" where
  "known_command cmd =
     (cmd \<in> REQUEST_FOR_NO_RESPONSE \<or> cmd \<in> REQUEST_FOR_INT_RESPONSE \<or>
      cmd \<in> REQUEST_FOR_FLOAT_RESPONSE \<or> cmd \<in> REQUEST_FOR_BYTE_RESPONSE \<or>
      cmd \<in> REQUEST_FOR_LIST_RESPONSE \<or> cmd \<in> REQUEST_FOR_STR_MAP_RESPONSE \<or>
      cmd \<in> REQUEST_FOR_INT_MAP_RESPONSE \<or> cmd \<in> REQUEST_FOR_STR_MAP_SCAN_RESPONSE \<or>
      cmd \<in> REQUEST_FOR_INT_MAP_SCAN_RESPONSE)"


section \<open>Notions used to state the properties of connections and the pool\<close>

text \<open>
  Worlds for closed examples: one in which every call succeeds and nothing arrives, one whose
  first connection attempt is refused while the second would succeed, and one in which the
  server answers the first request with two frames at once. In that world \<open>used_once\<close> is
  the system after a lease, one \<^verbatim>\<open>read_response()\<close> on the leased connection and its release
  (the second frame is left in the connection's parser), and \<open>leased_again\<close> the system
  when the next lease has taken the connection from the pool.
\<close>

definition always_ok :: "nat \<Rightarrow> bool" where
  "always_ok n = True"

definition quiet_world :: World where
  "quiet_world = \<lparr>getpid = 1, opens = [], reads = [], writes = [], closes = [],
                   realloc_ok = always_ok, trace = []\<rparr>"

definition refusing_world :: World where
  "refusing_world = quiet_world\<lparr>opens := [Some (ConnectionError ''refused''), None]\<rparr>"

definition two_frames_world :: World where
  "two_frames_world = quiet_world\<lparr>reads := [ReadData ''2\<newline>ok\<newline>\<newline>2\<newline>ok\<newline>\<newline>'']\<rparr>"

definition used_once :: Sys where
  "used_once =
     snd (release 0 (snd (on_conn read_response 0
       (snd (get_connection (fresh_system 0 None two_frames_world))))))"

definition leased_again :: Sys where
  "leased_again = snd (acquire (checkpid used_once))"

text \<open>
  The number of connection attempts a world has seen; and the relation between the state
  before and after a call that leaves the process ids and that number as they were.
\<close>

definition opened :: "World \<Rightarrow> nat" where
  "opened w = length (filter (\<lambda>e. e = Open) (trace w))"

definition steady :: "Connection \<times> World \<Rightarrow> Connection \<times> World \<Rightarrow> bool" where
  "steady cw cw' =
     (pid (fst cw') = pid (fst cw) \<and> getpid (snd cw') = getpid (snd cw) \<and>
      opened (snd cw') = opened (snd cw))"

definition opens_made :: "Sys \<Rightarrow> nat" where
  "opens_made s = opened (world s)"



text \<open>
  One reconnect, in the words of the specification: disconnect, connect, probe again, and
  fail with "Connection not ready" when the probe still reports data.
\<close>

definition reconnect_once :: "nat \<Rightarrow> Sys \<Rightarrow> unit outcome \<times> Sys" where
  "reconnect_once r s =
     then_do (on_conn disconnect r s)
       (\<lambda>_ s3.
          then_do (on_conn connect r s3)
            (\<lambda>_ s4.
               then_do (on_conn in_use r s4)
                 (\<lambda>b s5. if b then (Raise (ConnectionError ''Connection not ready''), s5)
                          else (Return (), s5))))"


section \<open>Properties of the buffer and the parser\<close>

lemma grow_loop_zero: "grow_loop c sz = Some r \<Longrightarrow> c = 0 \<longrightarrow> sz = 0"
  by (rule grow_loop.raw_induct [where P = "\<lambda>c sz r. c = 0 \<longrightarrow> sz = 0"])
     (auto split: if_splits)

lemma grow_loop_diverges: "0 < sz \<Longrightarrow> grow_loop 0 sz = None"
  using grow_loop_zero [of 0 sz] by (cases "grow_loop 0 sz") auto

lemma grow_loop_terminates:
  "0 < c \<Longrightarrow> \<exists>r. grow_loop c sz = Some r \<and> sz \<le> r \<and> 0 < r"
proof (induction "sz - c" arbitrary: c rule: less_induct)
  case less
  show ?case
  proof (cases "c < sz")
    case True
    with less.prems have "sz - c * 2 < sz - c" by simp
    from less.hyps [OF this] less.prems obtain r where "grow_loop (c * 2) sz = Some r" "sz \<le> r" "0 < r"
      by auto
    with True show ?thesis by (subst grow_loop.simps) simp
  next
    case False
    with less.prems show ?thesis by (subst grow_loop.simps) simp
  qed
qed

lemma memchr_iff:
  "memchr d p c (length d - p) = Some i \<longleftrightarrow>
     (p \<le> i \<and> i < length d \<and> d ! i = c \<and> (\<forall>j. p \<le> j \<and> j < i \<longrightarrow> d ! j \<noteq> c))"
  (is "?L = ?R")
proof
  assume L: ?L
  let ?s = "drop p d"
  let ?k = "length (takeWhile (\<lambda>x. x \<noteq> c) ?s)"
  from L have mem: "c \<in> set ?s" and i: "i = p + ?k"
    by (auto simp: memchr_def Let_def split: if_splits)
  have klt: "?k < length ?s"
  proof (rule ccontr)
    assume "\<not> ?k < length ?s"
    hence "?k = length ?s"
      using length_takeWhile_le [of "\<lambda>x. x \<noteq> c" ?s] by simp
    hence "takeWhile (\<lambda>x. x \<noteq> c) ?s = ?s"
      using takeWhile_eq_take [of "\<lambda>x. x \<noteq> c" ?s] by simp
    hence "\<forall>x\<in>set ?s. x \<noteq> c" by (simp only: takeWhile_eq_all_conv)
    with mem show False by blast
  qed
  have "\<not> (?s ! ?k \<noteq> c)" using klt by (rule nth_length_takeWhile)
  hence at: "d ! i = c" using i klt by (simp add: add.commute)
  have "\<And>j. p \<le> j \<Longrightarrow> j < i \<Longrightarrow> d ! j \<noteq> c"
  proof -
    fix j assume "p \<le> j" "j < i"
    hence "j - p < ?k" using i by simp
    hence "takeWhile (\<lambda>x. x \<noteq> c) ?s ! (j - p) \<in> set (takeWhile (\<lambda>x. x \<noteq> c) ?s)"
      by simp
    hence "takeWhile (\<lambda>x. x \<noteq> c) ?s ! (j - p) \<noteq> c" by (auto dest: set_takeWhileD)
    moreover have "takeWhile (\<lambda>x. x \<noteq> c) ?s ! (j - p) = ?s ! (j - p)"
      using \<open>j - p < ?k\<close> by (rule takeWhile_nth)
    ultimately show "d ! j \<noteq> c" using \<open>p \<le> j\<close> klt \<open>j - p < ?k\<close> by simp
  qed
  with i klt at show ?R by auto
next
  assume R: ?R
  let ?s = "drop p d"
  have mem: "c \<in> set ?s"
    using R by (auto simp: set_conv_nth intro!: exI [of _ "i - p"])
  have "takeWhile (\<lambda>x. x \<noteq> c) ?s = take (i - p) ?s"
  proof (rule takeWhile_eq_take_P_nth)
    fix j assume "j < i - p" "j < length ?s"
    with R show "?s ! j \<noteq> c" by simp
  next
    assume "i - p < length ?s"
    with R show "\<not> ?s ! (i - p) \<noteq> c" by simp
  qed
  hence "length (takeWhile (\<lambda>x. x \<noteq> c) ?s) = i - p" using R by (auto simp: min_def)
  with mem R show ?L by (simp add: memchr_def Let_def)
qed

lemma memchr_Some_ge: "memchr d p c n = Some i \<Longrightarrow> p \<le> i"
  by (auto simp: memchr_def Let_def split: if_splits)

lemma parse_loop_body:
  "parse_loop b ptr len vals =
     (case parse_body (data b) ptr len of
        SEnd ch \<Rightarrow> Parsed OK vals (remove b ch)
      | SBad \<Rightarrow> Parsed EBADFMT vals b
      | SMore \<Rightarrow> Parsed EUNFINISH vals b
      | SOvf \<Rightarrow> SignedOverflow
      | SBlob p l v \<Rightarrow> parse_loop b p l (vals @ [v]))"
  apply (subst parse_loop.simps)
  apply (unfold parse_body_def)
  apply (simp only: Let_def
      if_distrib [where f = "case_step a b c d e" for a b c d e]
      option.case_distrib [where h = "case_step a b c d e" for a b c d e]
      step.case)
  done


lemma parse_body_cases:
  assumes I: "ptr \<le> length d" "len = int (length d) - int ptr"
  shows "parse_body d ptr len =
     (if \<not> ptr < length d then SMore
      else case memchr d ptr NL (length d - ptr) of
        None \<Rightarrow> SMore
      | Some nl \<Rightarrow>
          if is_end d ptr nl then SEnd (nl + 1)
          else if hdr_bad d ptr nl then SBad
          else if hdr_ovf d ptr nl then SOvf
          else (let q = nl + 1 + nat (hdr_size d ptr nl); v = take (nat (hdr_size d ptr nl)) (drop (nl + 1) d) in
            if q < length d \<and> d ! q = NL then SBlob (q + 1) (int (length d) - int (q + 1)) v
            else if q + 1 < length d \<and> d ! q = CR \<and> d ! (q + 1) = NL
              then SBlob (q + 2) (int (length d) - int (q + 2)) v
            else SMore))"
proof (cases "ptr < length d")
  case False
  with I show ?thesis by (simp add: parse_body_def)
next
  case inb: True
  hence pos: "0 < len" and nlen: "nat len = length d - ptr" using I by simp_all
  show ?thesis
  proof (cases "memchr d ptr NL (length d - ptr)")
    case None
    with inb pos nlen show ?thesis by (simp add: parse_body_def)
  next
    case (Some nl)
    hence ge: "ptr \<le> nl" by (rule memchr_Some_ge)
    let ?sz = "hdr_size d ptr nl"
    let ?q = "nl + 1 + nat ?sz"
    have dis: "int (nl + 1) - int ptr = int (nl + 1 - ptr)" using ge by simp
    have "nat (int (nl + 1 - ptr) - 1) = nl - ptr" using ge by arith
    hence sz': "atoi (take (nat (int (nl + 1 - ptr) - 1)) (drop ptr d)) = ?sz"
      by (simp add: hdr_size_def)
    have e: "(int (nl + 1 - ptr) = 1 \<or> int (nl + 1 - ptr) = 2 \<and> d ! ptr = CR) = is_end d ptr nl"
      using ge by (auto simp: is_end_def)
    show ?thesis
    proof (cases "is_end d ptr nl")
      case True
      show ?thesis unfolding parse_body_def Let_def
        by (simp only: pos nlen Some inb option.case dis e True if_True if_False simp_thms)
    next
      case ne: False
      show ?thesis
      proof (cases "hdr_bad d ptr nl")
        case True
        hence "\<not> is_digit (d ! ptr) \<or> 19 < int (nl + 1 - ptr) \<or> ?sz < 0"
          using ge by (auto simp: hdr_bad_def)
        hence "(if \<not> is_digit (d ! ptr) then SBad
               else if 19 < int (nl + 1 - ptr) then SBad
               else if ?sz < 0 then SBad else X) = SBad" for X
          by auto
        thus ?thesis unfolding parse_body_def Let_def
          by (simp only: pos nlen Some inb option.case dis e sz' ne True if_True if_False simp_thms)
      next
        case nb: False
        hence nb': "is_digit (d ! ptr)" "\<not> 19 < int (nl + 1 - ptr)" "\<not> ?sz < 0"
          using ge by (auto simp: hdr_bad_def)
        show ?thesis
        proof (cases "hdr_ovf d ptr nl")
          case True
          hence o: "INT_MAX < int (nl + 1 - ptr) + ?sz" by (simp add: hdr_ovf_def)
          show ?thesis unfolding parse_body_def Let_def
            by (simp only: pos nlen Some inb option.case dis e sz' ne nb nb' o True
                if_True if_False simp_thms)
        next
          case no: False
          hence no': "\<not> INT_MAX < int (nl + 1 - ptr) + ?sz" by (simp add: hdr_ovf_def)
          have q1: "ptr + nat (int (nl + 1 - ptr) + ?sz) = ?q"
            using ge nb' by (simp add: nat_add_distrib)
          have l1: "len - (int (nl + 1 - ptr) + ?sz) = int (length d) - int ?q"
            using ge nb' I by simp
          have c1: "(int (length d) - int ?q < 0 \<or> length d < ?q) = (length d < ?q)" by auto
          have c2: "(1 \<le> int (length d) - int ?q \<and> d ! ?q = NL) = (?q < length d \<and> d ! ?q = NL)" by auto
          have c3: "(2 \<le> int (length d) - int ?q \<and> d ! ?q = CR \<and> d ! (?q + 1) = NL)
                     = (?q + 1 < length d \<and> d ! ?q = CR \<and> d ! (?q + 1) = NL)" by auto
          have r1: "int (length d) - int ?q - 1 = int (length d) - int (?q + 1)" by simp
          have r2: "int (length d) - int ?q - 2 = int (length d) - int (?q + 2)" by simp
          have fin: "(if length d < ?q then SMore else if ?q < length d \<and> d ! ?q = NL then A
                       else if ?q + 1 < length d \<and> d ! ?q = CR \<and> d ! (?q + 1) = NL then B else SMore)
                    = (if ?q < length d \<and> d ! ?q = NL then A
                       else if ?q + 1 < length d \<and> d ! ?q = CR \<and> d ! (?q + 1) = NL then B else SMore)"
            for A B by auto
          show ?thesis unfolding parse_body_def Let_def
            by (simp only: pos nlen Some inb option.case dis e sz' ne nb nb' no no' q1 l1 c1 c2 c3 r1 r2 fin
                if_True if_False simp_thms)
        qed
      qed
    qed
  qed
qed


lemma parse_loop_unfold:
  assumes I: "ptr \<le> buf_size b" "len = int (buf_size b) - int ptr"
  shows "parse_loop b ptr len vals =
     (if \<not> ptr < buf_size b then Parsed EUNFINISH vals b
      else case memchr (data b) ptr NL (buf_size b - ptr) of
        None \<Rightarrow> Parsed EUNFINISH vals b
      | Some nl \<Rightarrow>
          if is_end (data b) ptr nl then Parsed OK vals (remove b (nl + 1))
          else if hdr_bad (data b) ptr nl then Parsed EBADFMT vals b
          else if hdr_ovf (data b) ptr nl then SignedOverflow
          else (let q = nl + 1 + nat (hdr_size (data b) ptr nl);
                    v = take (nat (hdr_size (data b) ptr nl)) (drop (nl + 1) (data b)) in
            if q < buf_size b \<and> data b ! q = NL
              then parse_loop b (q + 1) (int (buf_size b) - int (q + 1)) (vals @ [v])
            else if q + 1 < buf_size b \<and> data b ! q = CR \<and> data b ! (q + 1) = NL
              then parse_loop b (q + 2) (int (buf_size b) - int (q + 2)) (vals @ [v])
            else Parsed EUNFINISH vals b))"
  by (simp only: parse_loop_body [of b ptr len vals] parse_body_cases [OF I] Let_def
      if_distrib [where f = "case_step a b c d e" for a b c d e]
      option.case_distrib [where h = "case_step a b c d e" for a b c d e]
      step.case)

lemma agree_nth: "take n d2 = take n d \<Longrightarrow> i < n \<Longrightarrow> d2 ! i = d ! i"
  by (metis nth_take)

lemma agree_take_drop:
  assumes "take n d2 = take n d" "p + k \<le> n"
  shows "take k (drop p d2) = take k (drop p d)"
proof -
  have a: "take (p + k) d2 = take (p + k) d"
    using assms by (metis min.absorb1 take_take)
  have b: "take k (drop p x) = drop p (take (p + k) x)" for x :: "'a list"
    by (simp add: drop_take)
  show ?thesis by (simp only: b a)
qed

lemma agree_memchr:
  assumes "memchr d p c (length d - p) = Some i" "i < n" "n \<le> length d2" "take n d2 = take n d"
  shows "memchr d2 p c (length d2 - p) = Some i"
proof -
  from assms(1) have f: "p \<le> i" "i < length d" "d ! i = c" "\<forall>j. p \<le> j \<and> j < i \<longrightarrow> d ! j \<noteq> c"
    by (simp_all add: memchr_iff)
  have "d2 ! j = d ! j" if "j \<le> i" for j
    using that assms(2,4) by (auto intro: agree_nth)
  with f assms(2,3) show ?thesis by (simp add: memchr_iff)
qed

lemma agree_is_end:
  "take n d2 = take n d \<Longrightarrow> p \<le> nl \<Longrightarrow> nl < n \<Longrightarrow> is_end d2 p nl = is_end d p nl"
  using agree_nth [of n d2 d p] by (auto simp: is_end_def)

lemma agree_hdr_size:
  "take n d2 = take n d \<Longrightarrow> p \<le> nl \<Longrightarrow> nl < n \<Longrightarrow> hdr_size d2 p nl = hdr_size d p nl"
  using agree_take_drop [of n d2 d p "nl - p"] by (simp add: hdr_size_def)

lemma agree_hdr_bad:
  "take n d2 = take n d \<Longrightarrow> p \<le> nl \<Longrightarrow> nl < n \<Longrightarrow> hdr_bad d2 p nl = hdr_bad d p nl"
  using agree_nth [of n d2 d p] agree_hdr_size [of n d2 d p nl] by (simp add: hdr_bad_def)

lemma agree_hdr_ovf:
  "take n d2 = take n d \<Longrightarrow> p \<le> nl \<Longrightarrow> nl < n \<Longrightarrow> hdr_ovf d2 p nl = hdr_ovf d p nl"
  using agree_hdr_size [of n d2 d p nl] by (simp add: hdr_ovf_def)

lemma remove_le: "n \<le> buf_size b \<Longrightarrow> remove b n = b\<lparr>data := drop n (data b)\<rparr>"
  by (simp add: remove_def)


lemma term_at_bounds: "term_at d q p \<Longrightarrow> q < p \<and> p \<le> length d"
  by (auto simp: term_at_def)

lemma agree_term_at:
  "take n d2 = take n d \<Longrightarrow> n \<le> length d2 \<Longrightarrow> p \<le> n \<Longrightarrow> term_at d q p \<Longrightarrow> term_at d2 q p"
  using agree_nth [of n d2 d q] agree_nth [of n d2 d "q + 1"]
  by (auto simp: term_at_def)

lemma parse_loop_cases [consumes 2, case_names More End Bad Ovf Blob]:
  assumes I: "ptr \<le> buf_size b" "len = int (buf_size b) - int ptr"
  obtains
    (More) "parse_loop b ptr len vals = Parsed EUNFINISH vals b"
  | (End) nl where "memchr (data b) ptr NL (buf_size b - ptr) = Some nl"
      "is_end (data b) ptr nl"
      "parse_loop b ptr len vals = Parsed OK vals (remove b (nl + 1))"
  | (Bad) nl where "memchr (data b) ptr NL (buf_size b - ptr) = Some nl"
      "\<not> is_end (data b) ptr nl" "hdr_bad (data b) ptr nl"
      "parse_loop b ptr len vals = Parsed EBADFMT vals b"
  | (Ovf) nl where "memchr (data b) ptr NL (buf_size b - ptr) = Some nl"
      "\<not> is_end (data b) ptr nl" "\<not> hdr_bad (data b) ptr nl" "hdr_ovf (data b) ptr nl"
      "parse_loop b ptr len vals = SignedOverflow"
  | (Blob) nl p where "memchr (data b) ptr NL (buf_size b - ptr) = Some nl"
      "\<not> is_end (data b) ptr nl" "\<not> hdr_bad (data b) ptr nl" "\<not> hdr_ovf (data b) ptr nl"
      "term_at (data b) (nl + 1 + nat (hdr_size (data b) ptr nl)) p"
      "parse_loop b ptr len vals =
         parse_loop b p (int (buf_size b) - int p)
           (vals @ [take (nat (hdr_size (data b) ptr nl)) (drop (nl + 1) (data b))])"
proof -
  note u = parse_loop_unfold [OF I, of vals]
  show thesis
  proof (cases "ptr < buf_size b")
    case False
    with u More show thesis by simp
  next
    case inb: True
    show thesis
    proof (cases "memchr (data b) ptr NL (buf_size b - ptr)")
      case None
      with u inb More show thesis by simp
    next
      case (Some nl)
      let ?q = "nl + 1 + nat (hdr_size (data b) ptr nl)"
      consider (e) "is_end (data b) ptr nl"
        | (b) "\<not> is_end (data b) ptr nl" "hdr_bad (data b) ptr nl"
        | (o) "\<not> is_end (data b) ptr nl" "\<not> hdr_bad (data b) ptr nl" "hdr_ovf (data b) ptr nl"
        | (t1) "\<not> is_end (data b) ptr nl" "\<not> hdr_bad (data b) ptr nl" "\<not> hdr_ovf (data b) ptr nl"
            "?q < buf_size b \<and> data b ! ?q = NL"
        | (t2) "\<not> is_end (data b) ptr nl" "\<not> hdr_bad (data b) ptr nl" "\<not> hdr_ovf (data b) ptr nl"
            "\<not> (?q < buf_size b \<and> data b ! ?q = NL)"
            "?q + 1 < buf_size b \<and> data b ! ?q = CR \<and> data b ! (?q + 1) = NL"
        | (m) "\<not> is_end (data b) ptr nl" "\<not> hdr_bad (data b) ptr nl" "\<not> hdr_ovf (data b) ptr nl"
            "\<not> (?q < buf_size b \<and> data b ! ?q = NL)"
            "\<not> (?q + 1 < buf_size b \<and> data b ! ?q = CR \<and> data b ! (?q + 1) = NL)"
        by blast
      thus thesis
      proof cases
        case e
        with u inb Some End show thesis by simp
      next
        case b
        with u inb Some Bad show thesis by simp
      next
        case o
        with u inb Some Ovf show thesis by simp
      next
        case t1
        hence "term_at (data b) ?q (?q + 1)" by (simp add: term_at_def)
        moreover have "parse_loop b ptr len vals =
           parse_loop b (?q + 1) (int (buf_size b) - int (?q + 1))
             (vals @ [take (nat (hdr_size (data b) ptr nl)) (drop (nl + 1) (data b))])"
          by (simp only: u Let_def inb Some option.case t1 if_True if_False simp_thms)
        ultimately show thesis using Blob [of nl "?q + 1"] Some t1 by blast
      next
        case t2
        hence "term_at (data b) ?q (?q + 2)" by (simp add: term_at_def)
        moreover have "parse_loop b ptr len vals =
           parse_loop b (?q + 2) (int (buf_size b) - int (?q + 2))
             (vals @ [take (nat (hdr_size (data b) ptr nl)) (drop (nl + 1) (data b))])"
          by (simp only: u Let_def inb Some option.case t2 if_True if_False simp_thms) simp
        ultimately show thesis using Blob [of nl "?q + 2"] Some t2 by blast
      next
        case m
        have "parse_loop b ptr len vals = Parsed EUNFINISH vals b"
          by (simp only: u Let_def inb Some option.case m if_True if_False simp_thms)
        with More show thesis .
      qed
    qed
  qed
qed

lemma parse_loop_End_intro:
  assumes "memchr (data b) ptr NL (buf_size b - ptr) = Some nl" "is_end (data b) ptr nl"
  shows "parse_loop b ptr (int (buf_size b) - int ptr) vals = Parsed OK vals (remove b (nl + 1))"
proof -
  from assms(1) have "ptr \<le> nl" "nl < buf_size b" by (simp_all add: memchr_iff)
  hence "ptr \<le> buf_size b" "ptr < buf_size b" by simp_all
  from parse_loop_unfold [OF this(1) refl, of vals] this(2) assms show ?thesis by simp
qed

lemma parse_loop_Bad_intro:
  assumes "memchr (data b) ptr NL (buf_size b - ptr) = Some nl" "\<not> is_end (data b) ptr nl"
    "hdr_bad (data b) ptr nl"
  shows "parse_loop b ptr (int (buf_size b) - int ptr) vals = Parsed EBADFMT vals b"
proof -
  from assms(1) have "ptr \<le> nl" "nl < buf_size b" by (simp_all add: memchr_iff)
  hence "ptr \<le> buf_size b" "ptr < buf_size b" by simp_all
  from parse_loop_unfold [OF this(1) refl, of vals] this(2) assms show ?thesis by simp
qed

lemma parse_loop_Ovf_intro:
  assumes "memchr (data b) ptr NL (buf_size b - ptr) = Some nl" "\<not> is_end (data b) ptr nl"
    "\<not> hdr_bad (data b) ptr nl" "hdr_ovf (data b) ptr nl"
  shows "parse_loop b ptr (int (buf_size b) - int ptr) vals = SignedOverflow"
proof -
  from assms(1) have "ptr \<le> nl" "nl < buf_size b" by (simp_all add: memchr_iff)
  hence "ptr \<le> buf_size b" "ptr < buf_size b" by simp_all
  from parse_loop_unfold [OF this(1) refl, of vals] this(2) assms show ?thesis by simp
qed

lemma parse_loop_Blob_intro:
  assumes "memchr (data b) ptr NL (buf_size b - ptr) = Some nl" "\<not> is_end (data b) ptr nl"
    "\<not> hdr_bad (data b) ptr nl" "\<not> hdr_ovf (data b) ptr nl"
    "term_at (data b) (nl + 1 + nat (hdr_size (data b) ptr nl)) p"
  shows "parse_loop b ptr (int (buf_size b) - int ptr) vals =
         parse_loop b p (int (buf_size b) - int p)
           (vals @ [take (nat (hdr_size (data b) ptr nl)) (drop (nl + 1) (data b))])"
proof -
  from assms(1) have "ptr \<le> nl" "nl < buf_size b" by (simp_all add: memchr_iff)
  hence "ptr \<le> buf_size b" "ptr < buf_size b" by simp_all
  from parse_loop_unfold [OF this(1) refl, of vals] this(2) assms show ?thesis
    by (auto simp: Let_def term_at_def)
qed

lemma parse_loop_frame:
  assumes "parse_loop b ptr len vals = Parsed st vs b'" "st \<noteq> OK"
    "ptr \<le> buf_size b" "len = int (buf_size b) - int ptr"
  shows "b' = b \<and> (st = EUNFINISH \<or> st = EBADFMT)"
  using assms
proof (induction "buf_size b - ptr" arbitrary: ptr len vals rule: less_induct)
  case less
  from less.prems(3,4) show ?case
  proof (cases rule: parse_loop_cases [where vals = vals])
    case More
    with less.prems show ?thesis by simp
  next
    case (End nl)
    with less.prems show ?thesis by simp
  next
    case (Bad nl)
    with less.prems show ?thesis by simp
  next
    case (Ovf nl)
    with less.prems show ?thesis by simp
  next
    case (Blob nl p)
    from Blob(1) have "ptr \<le> nl" by (rule memchr_Some_ge)
    with term_at_bounds [OF Blob(5)] have "ptr < p" "p \<le> buf_size b" by simp_all
    hence "buf_size b - p < buf_size b - ptr" using less.prems(3) by simp
    from less.hyps [OF this _ less.prems(2) \<open>p \<le> buf_size b\<close> refl] less.prems(1) Blob(6)
    show ?thesis by simp
  qed
qed


lemma parse_loop_OK_agree:
  assumes "parse_loop b ptr len vals = Parsed OK vs b'"
    "ptr \<le> buf_size b" "len = int (buf_size b) - int ptr"
  shows "\<exists>n. ptr < n \<and> n \<le> buf_size b \<and> b' = b\<lparr>data := drop n (data b)\<rparr> \<and>
           (\<forall>b2. n \<le> buf_size b2 \<longrightarrow> take n (data b2) = take n (data b) \<longrightarrow>
              parse_loop b2 ptr (int (buf_size b2) - int ptr) vals
                = Parsed OK vs (b2\<lparr>data := drop n (data b2)\<rparr>))"
  using assms
proof (induction "buf_size b - ptr" arbitrary: ptr len vals rule: less_induct)
  case less
  from less.prems(2,3) show ?case
  proof (cases rule: parse_loop_cases [where vals = vals])
    case More
    with less.prems show ?thesis by simp
  next
    case (End nl)
    from End(1) have nl: "ptr \<le> nl" "nl < buf_size b" by (simp_all add: memchr_iff)
    have "parse_loop b2 ptr (int (buf_size b2) - int ptr) vals
            = Parsed OK vs (b2\<lparr>data := drop (nl + 1) (data b2)\<rparr>)"
      if a: "nl + 1 \<le> buf_size b2" "take (nl + 1) (data b2) = take (nl + 1) (data b)" for b2
    proof -
      have m: "memchr (data b2) ptr NL (buf_size b2 - ptr) = Some nl"
        using agree_memchr [OF End(1) _ a] by simp
      have e: "is_end (data b2) ptr nl"
        using agree_is_end [OF a(2) nl(1)] End(2) by simp
      from parse_loop_End_intro [OF m e, of vals] less.prems(1) End(3) a(1)
      show ?thesis by (simp add: remove_le)
    qed
    moreover have "b' = b\<lparr>data := drop (nl + 1) (data b)\<rparr>" "vs = vals"
      using less.prems(1) End(3) nl by (simp_all add: remove_le)
    ultimately show ?thesis using nl by (intro exI [of _ "nl + 1"]) simp
  next
    case (Bad nl)
    with less.prems show ?thesis by simp
  next
    case (Ovf nl)
    with less.prems show ?thesis by simp
  next
    case (Blob nl p)
    let ?d = "data b"
    let ?q = "nl + 1 + nat (hdr_size ?d ptr nl)"
    let ?v = "take (nat (hdr_size ?d ptr nl)) (drop (nl + 1) ?d)"
    from Blob(1) have nl: "ptr \<le> nl" "nl < buf_size b" by (simp_all add: memchr_iff)
    from term_at_bounds [OF Blob(5)] nl have p: "ptr < p" "p \<le> buf_size b" "?q < p" by simp_all
    hence "buf_size b - p < buf_size b - ptr" using less.prems(2) by simp
    from less.hyps [OF this _ p(2) refl, of "vals @ [?v]"] less.prems(1) Blob(6)
    obtain n where n: "p < n" "n \<le> buf_size b" "b' = b\<lparr>data := drop n (data b)\<rparr>"
      and ag: "\<And>b2. n \<le> buf_size b2 \<Longrightarrow> take n (data b2) = take n (data b) \<Longrightarrow>
              parse_loop b2 p (int (buf_size b2) - int p) (vals @ [?v])
                = Parsed OK vs (b2\<lparr>data := drop n (data b2)\<rparr>)"
      by auto
    have "parse_loop b2 ptr (int (buf_size b2) - int ptr) vals
            = Parsed OK vs (b2\<lparr>data := drop n (data b2)\<rparr>)"
      if a: "n \<le> buf_size b2" "take n (data b2) = take n (data b)" for b2
    proof -
      have lt: "nl < n" using p n nl by simp
      have m: "memchr (data b2) ptr NL (buf_size b2 - ptr) = Some nl"
        using agree_memchr [OF Blob(1) lt a] .
      have e: "\<not> is_end (data b2) ptr nl"
        using agree_is_end [OF a(2) nl(1) lt] Blob(2) by simp
      have hb: "\<not> hdr_bad (data b2) ptr nl"
        using agree_hdr_bad [OF a(2) nl(1) lt] Blob(3) by simp
      have ho: "\<not> hdr_ovf (data b2) ptr nl"
        using agree_hdr_ovf [OF a(2) nl(1) lt] Blob(4) by simp
      have hs: "hdr_size (data b2) ptr nl = hdr_size ?d ptr nl"
        using agree_hdr_size [OF a(2) nl(1) lt] .
      have t: "term_at (data b2) (nl + 1 + nat (hdr_size (data b2) ptr nl)) p"
        unfolding hs using agree_term_at [OF a(2) a(1) _ Blob(5)] n(1) by simp
      have v: "take (nat (hdr_size (data b2) ptr nl)) (drop (nl + 1) (data b2)) = ?v"
        unfolding hs using agree_take_drop [OF a(2), of "nl + 1" "nat (hdr_size ?d ptr nl)"] p(3) n(1)
        by simp
      from parse_loop_Blob_intro [OF m e hb ho t, of vals] ag [OF a] v
      show ?thesis by simp
    qed
    with n p show ?thesis by (intro exI [of _ n]) simp
  qed
qed

lemma parse_loop_extend:
  assumes "parse_loop b ptr len vals = r" "r = Parsed EBADFMT vs b \<or> r = SignedOverflow"
    "ptr \<le> buf_size b" "len = int (buf_size b) - int ptr" "data b2 = data b @ E"
  shows "parse_loop b2 ptr (int (buf_size b2) - int ptr) vals
           = (if r = SignedOverflow then SignedOverflow else Parsed EBADFMT vs b2)"
  using assms(1-4)
proof (induction "buf_size b - ptr" arbitrary: ptr len vals rule: less_induct)
  case less
  have a: "take (buf_size b) (data b2) = take (buf_size b) (data b)" "buf_size b \<le> buf_size b2"
    using assms(5) by simp_all
  from less.prems(3,4) show ?case
  proof (cases rule: parse_loop_cases [where vals = vals])
    case More
    with less.prems show ?thesis by auto
  next
    case (End nl)
    with less.prems show ?thesis by auto
  next
    case (Bad nl)
    from Bad(1) have nl: "ptr \<le> nl" "nl < buf_size b" by (simp_all add: memchr_iff)
    have m: "memchr (data b2) ptr NL (buf_size b2 - ptr) = Some nl"
      using agree_memchr [OF Bad(1) nl(2) a(2) a(1)] .
    have e: "\<not> is_end (data b2) ptr nl"
      using agree_is_end [OF a(1) nl] Bad(2) by simp
    have hb: "hdr_bad (data b2) ptr nl"
      using agree_hdr_bad [OF a(1) nl] Bad(3) by simp
    from parse_loop_Bad_intro [OF m e hb, of vals] less.prems(1,2) Bad(4)
    show ?thesis by auto
  next
    case (Ovf nl)
    from Ovf(1) have nl: "ptr \<le> nl" "nl < buf_size b" by (simp_all add: memchr_iff)
    have m: "memchr (data b2) ptr NL (buf_size b2 - ptr) = Some nl"
      using agree_memchr [OF Ovf(1) nl(2) a(2) a(1)] .
    have e: "\<not> is_end (data b2) ptr nl"
      using agree_is_end [OF a(1) nl] Ovf(2) by simp
    have hb: "\<not> hdr_bad (data b2) ptr nl"
      using agree_hdr_bad [OF a(1) nl] Ovf(3) by simp
    have ho: "hdr_ovf (data b2) ptr nl"
      using agree_hdr_ovf [OF a(1) nl] Ovf(4) by simp
    from parse_loop_Ovf_intro [OF m e hb ho, of vals] less.prems(1,2) Ovf(5)
    show ?thesis by auto
  next
    case (Blob nl p)
    let ?d = "data b"
    let ?q = "nl + 1 + nat (hdr_size ?d ptr nl)"
    let ?v = "take (nat (hdr_size ?d ptr nl)) (drop (nl + 1) ?d)"
    from Blob(1) have nl: "ptr \<le> nl" "nl < buf_size b" by (simp_all add: memchr_iff)
    from term_at_bounds [OF Blob(5)] nl have p: "ptr < p" "p \<le> buf_size b" "?q < p" by simp_all
    hence "buf_size b - p < buf_size b - ptr" using less.prems(3) by simp
    from less.hyps [OF this _ less.prems(2) p(2) refl, of "vals @ [?v]"] less.prems(1) Blob(6)
    have ih: "parse_loop b2 p (int (buf_size b2) - int p) (vals @ [?v])
           = (if r = SignedOverflow then SignedOverflow else Parsed EBADFMT vs b2)"
      by simp
    have m: "memchr (data b2) ptr NL (buf_size b2 - ptr) = Some nl"
      using agree_memchr [OF Blob(1) nl(2) a(2) a(1)] .
    have e: "\<not> is_end (data b2) ptr nl"
      using agree_is_end [OF a(1) nl] Blob(2) by simp
    have hb: "\<not> hdr_bad (data b2) ptr nl"
      using agree_hdr_bad [OF a(1) nl] Blob(3) by simp
    have ho: "\<not> hdr_ovf (data b2) ptr nl"
      using agree_hdr_ovf [OF a(1) nl] Blob(4) by simp
    have hs: "hdr_size (data b2) ptr nl = hdr_size ?d ptr nl"
      using agree_hdr_size [OF a(1) nl] .
    have t: "term_at (data b2) (nl + 1 + nat (hdr_size (data b2) ptr nl)) p"
      unfolding hs using agree_term_at [OF a(1) a(2) p(2) Blob(5)] .
    have v: "take (nat (hdr_size (data b2) ptr nl)) (drop (nl + 1) (data b2)) = ?v"
      unfolding hs using agree_take_drop [OF a(1), of "nl + 1" "nat (hdr_size ?d ptr nl)"] p
      by simp
    from parse_loop_Blob_intro [OF m e hb ho t, of vals] ih v
    show ?thesis by simp
  qed
qed

lemma Reader_get_None_same: "Reader_get b = (Return None, b') \<Longrightarrow> b' = b"
proof -
  assume a: "Reader_get b = (Return None, b')"
  then obtain st vs where p: "parse b = Parsed st vs b'" "st \<noteq> OK"
    by (auto simp: Reader_get_def split: parse_result.splits if_splits)
  from parse_loop_frame [of b 0 "int (buf_size b)" "[]" st vs b'] p show ?thesis
    by (simp add: parse_def)
qed

lemma Reader_get_prefix:
  assumes "data b2 = data b @ E" "fst (Reader_get b) \<noteq> Return None"
  shows "fst (Reader_get b2) = fst (Reader_get b)"
proof (cases "parse b")
  case SignedOverflow
  from parse_loop_extend [of b 0 "int (buf_size b)" "[]" SignedOverflow _ b2 E] SignedOverflow assms(1)
  show ?thesis by (simp add: parse_def Reader_get_def)
next
  case (Parsed st vs b')
  show ?thesis
  proof (cases "st = OK")
    case True
    with Parsed have "parse_loop b 0 (int (buf_size b)) [] = Parsed OK vs b'"
      by (simp add: parse_def)
    from parse_loop_OK_agree [OF this] obtain n where "n \<le> buf_size b"
      and ag: "\<And>b2. n \<le> buf_size b2 \<Longrightarrow> take n (data b2) = take n (data b) \<Longrightarrow>
          parse_loop b2 0 (int (buf_size b2)) [] = Parsed OK vs (b2\<lparr>data := drop n (data b2)\<rparr>)"
      by auto
    with ag [of b2] assms(1) Parsed True show ?thesis
      by (simp add: parse_def Reader_get_def)
  next
    case False
    from parse_loop_frame [of b 0 "int (buf_size b)" "[]" st vs b'] Parsed False
    have f: "b' = b" "st = EUNFINISH \<or> st = EBADFMT" by (simp_all add: parse_def)
    with assms(2) Parsed have st: "st = EBADFMT" by (auto simp: Reader_get_def)
    from parse_loop_extend [of b 0 "int (buf_size b)" "[]" "Parsed EBADFMT vs b" vs b2 E]
      Parsed st f assms(1)
    show ?thesis by (simp add: parse_def Reader_get_def)
  qed
qed

lemma Reader_get_data_cong:
  assumes "data b2 = data b"
  shows "fst (Reader_get b2) = fst (Reader_get b)"
proof (cases "fst (Reader_get b) = Return None")
  case False
  with Reader_get_prefix [of b2 b "[]"] assms show ?thesis by simp
next
  case True
  show ?thesis
  proof (rule ccontr)
    assume "fst (Reader_get b2) \<noteq> fst (Reader_get b)"
    with True have "fst (Reader_get b2) \<noteq> Return None" by simp
    with Reader_get_prefix [of b b2 "[]"] assms True show False by simp
  qed
qed

lemma Reader_feed_ok:
  assumes "\<forall>c. ra c" "0 < cap b" "buf_size b + length v \<le> BUF_MAX_SIZE"
  shows "\<exists>b1. Reader_feed ra b v = (Return (int (buf_size b + length v)), b1) \<and>
           data b1 = data b @ v \<and> 0 < cap b1"
proof (cases "buf_size b + length v \<le> cap b")
  case True
  with assms show ?thesis by (simp add: Reader_feed_def put_def grow_def)
next
  case False
  from grow_loop_terminates [OF assms(2), of "buf_size b + length v"]
  obtain r where "grow_loop (cap b) (buf_size b + length v) = Some r" "0 < r" by auto
  with False assms show ?thesis by (simp add: Reader_feed_def put_def grow_def)
qed

lemma Reader_feed_Return:
  assumes "Reader_feed ra b v = (Return n, b1)"
  shows "buf_size b + length v \<le> BUF_MAX_SIZE \<and> data b1 = data b @ v"
  using assms
  by (auto simp: Reader_feed_def put_def grow_def split: option.splits if_splits prod.splits)

lemma feed_chunks_invariance:
  assumes "\<forall>c. ra c" "0 < cap b" "buf_size b + length (concat (map fst cs)) \<le> BUF_MAX_SIZE"
    "data b2 = data b @ concat (map fst cs)"
  shows "fst (feed_chunks ra b cs) = fst (Reader_get b2)"
  using assms(2-4)
proof (induction cs arbitrary: b)
  case Nil
  thus ?case using Reader_get_data_cong [of b2 b] by simp
next
  case (Cons x cs)
  obtain c attempt where x: "x = (c, attempt)" by (cases x)
  from Cons.prems x have sz: "buf_size b + length c \<le> BUF_MAX_SIZE" by simp
  from Reader_feed_ok [OF assms(1) Cons.prems(1) sz] obtain b1 n where
    f: "Reader_feed ra b c = (Return n, b1)" "data b1 = data b @ c" "0 < cap b1" by auto
  have sz1: "buf_size b1 + length (concat (map fst cs)) \<le> BUF_MAX_SIZE"
    using Cons.prems(2) x f(2) by simp
  have d1: "data b2 = data b1 @ concat (map fst cs)"
    using Cons.prems(3) x f(2) by simp
  note ih = Cons.IH [OF f(3) sz1 d1]
  show ?case
  proof (cases attempt)
    case False
    with x f ih show ?thesis by simp
  next
    case True
    obtain r b1' where g: "Reader_get b1 = (r, b1')" by (cases "Reader_get b1")
    show ?thesis
    proof (cases "r = Return None")
      case rn: True
      with g have "b1' = b1" by (simp add: Reader_get_None_same)
      with x f ih True g rn show ?thesis by simp
    next
      case False
      with Reader_get_prefix [OF d1] g have "fst (Reader_get b2) = r" by simp
      moreover have "feed_chunks ra b (x # cs) = (r, b1')"
        using x f True g False
        by (cases r) (auto split: option.splits)
      ultimately show ?thesis by simp
    qed
  qed
qed


subsection \<open>What a parse attempt does to the buffer\<close>

text \<open>
  Claim C2. Whatever the buffer holds: when \<open>parse\<close> returns \<open>OK\<close> with a frame, the buffer
  has lost a non-empty prefix of \<open>n\<close> bytes and keeps the rest unchanged, now at offset 0
  (the capacity is unchanged); that prefix is exactly the frame's bytes: on its own it
  parses to the same frame and leaves nothing, and no shorter prefix is more than an
  unfinished frame. When \<open>parse\<close> returns \<open>EUNFINISH\<close> (and also \<open>EBADFMT\<close>) the buffer is
  returned as it was.
\<close>

theorem parse_consumes_exactly_frame:
  assumes "parse b = Parsed st frame b'"
  shows "(st = OK \<longrightarrow>
           (\<exists>n. 0 < n \<and> n \<le> buf_size b \<and> b' = b\<lparr>data := drop n (data b)\<rparr> \<and>
              parse (b\<lparr>data := take n (data b)\<rparr>) = Parsed OK frame (b\<lparr>data := []\<rparr>) \<and>
              (\<forall>m<n. \<exists>vs. parse (b\<lparr>data := take m (data b)\<rparr>)
                          = Parsed EUNFINISH vs (b\<lparr>data := take m (data b)\<rparr>)))) \<and>
         (st = EUNFINISH \<longrightarrow> b' = b) \<and>
         (st = EBADFMT \<longrightarrow> b' = b)"
proof (intro conjI impI)
  assume "st = EUNFINISH"
  with assms parse_loop_frame [of b 0 "int (buf_size b)" "[]" st frame b']
  show "b' = b" by (simp add: parse_def)
next
  assume "st = EBADFMT"
  with assms parse_loop_frame [of b 0 "int (buf_size b)" "[]" st frame b']
  show "b' = b" by (simp add: parse_def)
next
  assume "st = OK"
  with assms have ok: "parse_loop b 0 (int (buf_size b)) [] = Parsed OK frame b'"
    by (simp add: parse_def)
  from parse_loop_OK_agree [OF ok] obtain n where n: "0 < n" "n \<le> buf_size b"
      "b' = b\<lparr>data := drop n (data b)\<rparr>"
    and ag: "\<And>b2. n \<le> buf_size b2 \<Longrightarrow> take n (data b2) = take n (data b) \<Longrightarrow>
          parse_loop b2 0 (int (buf_size b2)) [] = Parsed OK frame (b2\<lparr>data := drop n (data b2)\<rparr>)"
    by auto
  have pre: "parse (b\<lparr>data := take n (data b)\<rparr>) = Parsed OK frame (b\<lparr>data := []\<rparr>)"
    using ag [of "b\<lparr>data := take n (data b)\<rparr>"] n(2) by (simp add: parse_def)
  have short: "\<exists>vs. parse (b\<lparr>data := take m (data b)\<rparr>)
                  = Parsed EUNFINISH vs (b\<lparr>data := take m (data b)\<rparr>)" if m: "m < n" for m
  proof -
    let ?bm = "b\<lparr>data := take m (data b)\<rparr>"
    have dm: "data b = data ?bm @ drop m (data b)" by simp
    have sm: "buf_size ?bm = m" using m n(2) by simp
    show ?thesis
    proof (cases "parse ?bm")
      case SignedOverflow
      from parse_loop_extend [of ?bm 0 "int (buf_size ?bm)" "[]" SignedOverflow _ b, OF _ _ _ _ dm]
        SignedOverflow ok
      show ?thesis by (simp add: parse_def)
    next
      case (Parsed st' vs' bm')
      show ?thesis
      proof (cases "st' = OK")
        case True
        with Parsed have "parse_loop ?bm 0 (int (buf_size ?bm)) [] = Parsed OK vs' bm'"
          by (simp add: parse_def)
        from parse_loop_OK_agree [OF this] obtain n' where n': "n' \<le> buf_size ?bm"
          and ag': "\<And>b2. n' \<le> buf_size b2 \<Longrightarrow> take n' (data b2) = take n' (data ?bm) \<Longrightarrow>
            parse_loop b2 0 (int (buf_size b2)) [] = Parsed OK vs' (b2\<lparr>data := drop n' (data b2)\<rparr>)"
          by auto
        have "n' \<le> m" using n' sm by simp
        hence "take n' (data b) = take n' (data ?bm)" by (simp add: min_def)
        from ag' [OF _ this] \<open>n' \<le> m\<close> m n(2) ok n(3)
        have "drop n' (data b) = drop n (data b)"
          by (auto dest: arg_cong [where f = data])
        hence "length (drop n' (data b)) = length (drop n (data b))" by simp
        with \<open>n' \<le> m\<close> m n(2) show ?thesis by simp
      next
        case False
        from parse_loop_frame [of ?bm 0 "int (buf_size ?bm)" "[]" st' vs' bm'] Parsed False
        have f: "bm' = ?bm" "st' = EUNFINISH \<or> st' = EBADFMT" by (simp_all add: parse_def)
        show ?thesis
        proof (cases "st' = EBADFMT")
          case True
          from parse_loop_extend [of ?bm 0 "int (buf_size ?bm)" "[]" "Parsed EBADFMT vs' ?bm" vs' b,
              OF _ _ _ _ dm] Parsed True f ok
          show ?thesis by (simp add: parse_def)
        next
          case False
          with f Parsed show ?thesis by auto
        qed
      qed
    qed
  qed
  from n pre short
  show "\<exists>n. 0 < n \<and> n \<le> buf_size b \<and> b' = b\<lparr>data := drop n (data b)\<rparr> \<and>
              parse (b\<lparr>data := take n (data b)\<rparr>) = Parsed OK frame (b\<lparr>data := []\<rparr>) \<and>
              (\<forall>m<n. \<exists>vs. parse (b\<lparr>data := take m (data b)\<rparr>)
                          = Parsed EUNFINISH vs (b\<lparr>data := take m (data b)\<rparr>))"
    by blast
qed

theorem parse_consumes_exactly_frame_witness:
  "parse \<lparr>data = ''2\<newline>ok\<newline>\<newline>r'', cap = 8192\<rparr>
     = Parsed OK [''ok''] \<lparr>data = ''r'', cap = 8192\<rparr> \<and>
   (\<exists>n. 0 < n \<and> n \<le> 7 \<and> ''r'' = drop n ''2\<newline>ok\<newline>\<newline>r'' \<and>
      parse \<lparr>data = take n ''2\<newline>ok\<newline>\<newline>r'', cap = 8192\<rparr>
        = Parsed OK [''ok''] \<lparr>data = [], cap = 8192\<rparr>)"
proof -
  have p: "parse \<lparr>data = ''2\<newline>ok\<newline>\<newline>r'', cap = 8192\<rparr>
     = Parsed OK [''ok''] \<lparr>data = ''r'', cap = 8192\<rparr>"
    by (simp add: parse_def parse_loop.simps memchr_def atoi_def is_digit_def to_int32_def
        digit_val_def INT_MAX_def remove_def)
  from parse_consumes_exactly_frame [OF p] obtain n where
    "0 < n" "n \<le> 7" "''r'' = drop n ''2\<newline>ok\<newline>\<newline>r''"
    "parse \<lparr>data = take n ''2\<newline>ok\<newline>\<newline>r'', cap = 8192\<rparr>
        = Parsed OK [''ok''] \<lparr>data = [], cap = 8192\<rparr>"
    by auto
  with p show ?thesis by blast
qed

subsection \<open>Chunk invariance\<close>

text \<open>
  Claim C1. Let every reallocation succeed. If feeding the byte string \<open>B\<close> to a new reader
  in one chunk and then parsing once yields a frame, then for every way of cutting \<open>B\<close>
  into chunks (empty chunks included), with a parse attempt after any of the feeds,
  feeding the chunks in order and parsing yields that same frame.
\<close>

theorem chunk_invariance:
  assumes "\<forall>c. ra c"
    and "fst (feed_chunks ra Buffer_cinit [(B, False)]) = Return (Some frame)"
    and "concat (map fst cs) = B"
  shows "fst (feed_chunks ra Buffer_cinit cs) = Return (Some frame)"
proof -
  obtain r b1 where f: "Reader_feed ra Buffer_cinit B = (r, b1)" by (cases "Reader_feed ra Buffer_cinit B")
  with assms(2) obtain n where r: "r = Return n" by (cases r) auto
  from Reader_feed_Return [OF f [unfolded r]]
  have sz: "length B \<le> BUF_MAX_SIZE" and d: "data b1 = B" by (simp_all add: Buffer_cinit_def)
  from assms(2) f r have g: "fst (Reader_get b1) = Return (Some frame)" by simp
  have "fst (feed_chunks ra Buffer_cinit cs) = fst (Reader_get b1)"
    by (rule feed_chunks_invariance [OF assms(1)])
       (use sz d assms(3) in \<open>simp_all add: Buffer_cinit_def INITIAL_BUF_SIZE_def\<close>)
  with g show ?thesis by simp
qed


theorem chunk_invariance_witness:
  "fst (feed_chunks (\<lambda>_. True) Buffer_cinit
          [(''2\<newline>o'', True), (''k\<newline>'', False), ([], True), (''\<newline>'', True)])
     = Return (Some [''ok'']) \<and>
   fst (feed_chunks (\<lambda>_. True) Buffer_cinit [(''2\<newline>ok\<newline>\<newline>'', False)])
     = Return (Some [''ok''])"
proof -
  have h: "fst (feed_chunks (\<lambda>_. True) Buffer_cinit [(''2\<newline>ok\<newline>\<newline>'', False)])
     = Return (Some [''ok''])"
    by (simp add: Reader_feed_def put_def grow_def Buffer_cinit_def INITIAL_BUF_SIZE_def
        BUF_MAX_SIZE_def Reader_get_def parse_def parse_loop.simps memchr_def atoi_def
        is_digit_def to_int32_def digit_val_def INT_MAX_def remove_def)
  from chunk_invariance [of "\<lambda>_. True" "''2\<newline>ok\<newline>\<newline>''" "[''ok'']"
      "[(''2\<newline>o'', True), (''k\<newline>'', False), ([], True), (''\<newline>'', True)]", OF _ h]
  have "fst (feed_chunks (\<lambda>_. True) Buffer_cinit
          [(''2\<newline>o'', True), (''k\<newline>'', False), ([], True), (''\<newline>'', True)])
     = Return (Some [''ok''])"
    by simp
  with h show ?thesis by simp
qed

subsection \<open>Feeding after \<^verbatim>\<open>clear()\<close>\<close>

text \<open>
  Claim C9 asks that an append after \<^verbatim>\<open>clear()\<close> reallocates and terminates. In the code
  \<^verbatim>\<open>clear()\<close> leaves \<^verbatim>\<open>cap = 0\<close>, and doubling 0 never reaches the requested size: feeding
  any non-empty byte string of at most 16 MiB to a cleared reader never returns, whatever
  the reader held before and whether or not reallocation would succeed.
\<close>

theorem feed_after_clear_hangs:
  assumes "v \<noteq> []" "length v \<le> BUF_MAX_SIZE"
  shows "Reader_feed ra (Reader_clear b) v = (Hang, Reader_clear b)"
  using assms grow_loop_diverges [of "length v"]
  by (simp add: Reader_feed_def Reader_clear_def clear_def put_def grow_def)

theorem feed_after_clear_hangs_witness:
  "Reader_feed (\<lambda>_. True) (Reader_clear Buffer_cinit) ''a'' = (Hang, Reader_clear Buffer_cinit)"
  using feed_after_clear_hangs [of "''a''" "\<lambda>_. True" Buffer_cinit]
  by (simp add: BUF_MAX_SIZE_def)

section \<open>Properties of the encoder\<close>












section \<open>Properties of the response interpreter\<close>

lemma digit_not_special:
  "is_digit c \<Longrightarrow> \<not> is_space c \<and> c \<noteq> CHR ''_'' \<and> c \<noteq> CHR ''-'' \<and> c \<noteq> CHR ''+''"
  by (auto simp: is_digit_def is_space_def)

lemma underscores_ok_digits: "list_all is_digit v \<Longrightarrow> underscores_ok v"
  by (induction v rule: underscores_ok.induct) (auto dest: digit_not_special)

lemma strip_digits:
  assumes "list_all is_digit v"
  shows "strip v = v"
proof -
  have a: "dropWhile is_space w = w" if "list_all is_digit w" for w
    using that by (cases w) (auto dest: digit_not_special)
  have "list_all is_digit (rev v)" using assms by (simp add: list_all_iff)
  with a [of v] a [of "rev v"] assms show ?thesis by (simp add: strip_def)
qed

lemma py_int_isdigit:
  "isdigit v \<Longrightarrow> py_int v = (if over_limit v then None else Some (digits_value v))"
proof -
  assume d: "isdigit v"
  then obtain c r where v: "v = c # r" and all: "list_all is_digit v"
    by (cases v) (auto simp: isdigit_def)
  hence c: "is_digit c" by simp
  have f: "filter is_digit v = v" using all by (simp add: list_all_iff)
  have l: "list_all (\<lambda>c. is_digit c \<or> c = CHR ''_'') v"
    using all by (simp add: list_all_iff)
  have "int_of_digits v = (if over_limit v then None else Some (digits_value v))"
    using underscores_ok_digits [OF all] digit_not_special [OF c] f l v d
    by (simp add: int_of_digits_def over_limit_def)
  thus ?thesis
    using strip_digits [OF all] v digit_not_special [OF c] by (simp add: py_int_def)
qed

lemma int_map_loop_eq:
  assumes "N = length resp" "even N"
  shows "j \<le> N div 2 \<Longrightarrow>
         int_map_loop resp (2 * j) N d =
           (if \<forall>i\<in>{j..<N div 2}. \<not> over_limit (resp ! (2 * i + 1)) then
              Return (dict_insert_all d
                (map (\<lambda>i. (resp ! (2 * i), int_value (resp ! (2 * i + 1)))) [j..<N div 2]))
            else Raise ValueError)"
proof (induction "N div 2 - j" arbitrary: j d)
  case 0
  hence "\<not> 2 * j < N" using assms(2) by auto
  with 0 show ?case by (simp add: int_map_loop.simps dict_insert_all_def)
next
  case (Suc n)
  hence lt: "j < N div 2" by simp
  hence lt2: "2 * j < N" using assms(2) by auto
  have up: "[j..<N div 2] = j # [Suc j..<N div 2]" using lt by (simp add: upt_conv_Cons)
  have st: "{j..<N div 2} = insert j {Suc j..<N div 2}" using lt by auto
  have n: "n = N div 2 - Suc j" using Suc.hyps(2) by simp
  have ih: "int_map_loop resp (2 * j + 2) N d' =
           (if \<forall>i\<in>{Suc j..<N div 2}. \<not> over_limit (resp ! (2 * i + 1)) then
              Return (dict_insert_all d'
                (map (\<lambda>i. (resp ! (2 * i), int_value (resp ! (2 * i + 1)))) [Suc j..<N div 2]))
            else Raise ValueError)" for d'
    using Suc.hyps(1) [OF n, of d'] lt by simp
  show ?case
  proof (cases "isdigit (resp ! (2 * j + 1))")
    case True
    show ?thesis
    proof (cases "over_limit (resp ! (2 * j + 1))")
      case o: True
      with lt2 py_int_isdigit [OF True] True show ?thesis
        by (subst int_map_loop.simps) (simp add: st Let_def)
    next
      case o: False
      with lt2 ih py_int_isdigit [OF True] True show ?thesis
        by (subst int_map_loop.simps) (simp add: up st dict_insert_all_def int_value_def)
    qed
  next
    case False
    hence "\<not> over_limit (resp ! (2 * j + 1))" by (simp add: over_limit_def)
    with False lt2 ih show ?thesis
      by (subst int_map_loop.simps) (simp add: up st dict_insert_all_def int_value_def)
  qed
qed

lemma values_within_limit_iff:
  "values_within_limit resp \<longleftrightarrow>
     (\<forall>i\<in>{0..<length resp div 2}. \<not> over_limit (resp ! (2 * i + 1)))"
  by (simp add: values_within_limit_def list_all_iff)

lemma to_int_map_eq:
  "to_int_map resp =
     (if odd (length resp) then Raise (RuntimeError ''Invalid response'')
      else if values_within_limit resp
        then Return (VIntMap (dict_insert_all [] (int_pairs resp)))
      else Raise ValueError)"
proof (cases "odd (length resp)")
  case True
  thus ?thesis by (simp add: to_int_map_def Let_def odd_iff_mod_2_eq_one)
next
  case False
  hence e: "even (length resp)" by simp
  from int_map_loop_eq [OF refl e, of 0 "[]"] e show ?thesis
    by (simp add: to_int_map_def Let_def int_pairs_def values_within_limit_iff)
qed

lemma dict_insert_all_keys:
  "fst ` set (dict_insert_all d ps) = fst ` set d \<union> fst ` set ps"
  unfolding dict_insert_all_def
proof (induction ps arbitrary: d)
  case Nil
  show ?case by simp
next
  case (Cons p ps)
  obtain a b where p: "p = (a, b)" by (cases p)
  show ?case by (simp add: p Cons.IH dom_update)
qed

lemma dict_insert_all_distinct:
  "distinct (map fst d) \<Longrightarrow> distinct (map fst (dict_insert_all d ps))"
  unfolding dict_insert_all_def
proof (induction ps arbitrary: d)
  case Nil
  thus ?case by simp
next
  case (Cons p ps)
  obtain a b where p: "p = (a, b)" by (cases p)
  from Cons.prems have "distinct (map fst (AList.update a b d))" by (simp add: distinct_update)
  from Cons.IH [OF this] show ?case by (simp add: p)
qed

lemma dict_insert_all_lookup:
  "map_of (dict_insert_all d ps) k =
     (case map_of (rev ps) k of Some v \<Rightarrow> Some v | None \<Rightarrow> map_of d k)"
  unfolding dict_insert_all_def
proof (induction ps arbitrary: d)
  case Nil
  show ?case by simp
next
  case (Cons p ps)
  obtain a b where p: "p = (a, b)" by (cases p)
  show ?case
    by (simp add: p Cons.IH update_conv' map_add_def split: option.splits)
qed

lemma update_fresh: "k \<notin> fst ` set al \<Longrightarrow> AList.update k v al = al @ [(k, v)]"
  by (induction al) auto

lemma dict_insert_all_fresh:
  "distinct (map fst ps) \<Longrightarrow> fst ` set d \<inter> fst ` set ps = {} \<Longrightarrow> dict_insert_all d ps = d @ ps"
  unfolding dict_insert_all_def
proof (induction ps arbitrary: d)
  case Nil
  show ?case by simp
next
  case (Cons p ps)
  obtain a b where p: "p = (a, b)" by (cases p)
  have "a \<notin> fst ` set d" using Cons.prems(2) p by auto
  hence u: "AList.update a b d = d @ [(a, b)]" by (rule update_fresh)
  have "fst ` set (d @ [(a, b)]) \<inter> fst ` set ps = {}"
    using Cons.prems p by auto
  with Cons.IH [of "d @ [(a, b)]"] Cons.prems(1) u p show ?case by simp
qed

lemma int_map_cmd_not_earlier:
  assumes "cmd \<in> REQUEST_FOR_INT_MAP_RESPONSE"
  shows "cmd \<notin> REQUEST_FOR_NO_RESPONSE \<and> cmd \<notin> REQUEST_FOR_INT_RESPONSE \<and>
         cmd \<notin> REQUEST_FOR_FLOAT_RESPONSE \<and> cmd \<notin> REQUEST_FOR_BYTE_RESPONSE \<and>
         cmd \<notin> REQUEST_FOR_LIST_RESPONSE \<and> cmd \<notin> REQUEST_FOR_STR_MAP_RESPONSE"
  using assms unfolding REQUEST_FOR_INT_MAP_RESPONSE_def
  by (elim insertE emptyE)
     (simp_all add: REQUEST_FOR_NO_RESPONSE_def REQUEST_FOR_INT_RESPONSE_def
        REQUEST_FOR_FLOAT_RESPONSE_def REQUEST_FOR_BYTE_RESPONSE_def
        REQUEST_FOR_LIST_RESPONSE_def REQUEST_FOR_STR_MAP_RESPONSE_def)

lemma int_map_dispatch:
  assumes "cmd \<in> REQUEST_FOR_INT_MAP_RESPONSE"
  shows "wrap_response flt cmd (''ok'' # body) = to_int_map body"
  using int_map_cmd_not_earlier [OF assms] assms by (simp add: wrap_response_def)

text \<open>
  Claim C8, amended. For a command of the INT_MAP class and a frame whose status is \<^verbatim>\<open>ok\<close>:
  a body of odd length raises \<^verbatim>\<open>RuntimeError("Invalid response")\<close>; a body of even length
  in which no value is a blob of more than 4300 ASCII digits yields a dictionary \<open>m\<close> whose
  keys are the blobs at the even positions, each once, and whose value for a key is
  \<open>int_value\<close> of the blob that follows the key (at the key's last occurrence, when a key
  occurs more than once): the decimal value of a blob that is not empty and all ASCII
  digits, and -1 for any other. When the keys are all different the dictionary is the list
  of the pairs in their order. A body of even length with a value of more than 4300 ASCII
  digits raises \<^verbatim>\<open>ValueError\<close>.
\<close>

theorem int_map_response:
  assumes "cmd \<in> REQUEST_FOR_INT_MAP_RESPONSE"
  shows "(odd (length body) \<longrightarrow>
            wrap_response flt cmd (''ok'' # body) = Raise (RuntimeError ''Invalid response'')) \<and>
         (even (length body) \<and> values_within_limit body \<longrightarrow>
            (\<exists>m. wrap_response flt cmd (''ok'' # body) = Return (VIntMap m) \<and>
               distinct (map fst m) \<and>
               fst ` set m = (\<lambda>i. body ! (2 * i)) ` {..<length body div 2} \<and>
               (\<forall>k. map_of m k = map_of (rev (int_pairs body)) k) \<and>
               (distinct (map fst (int_pairs body)) \<longrightarrow> m = int_pairs body))) \<and>
         (even (length body) \<and> \<not> values_within_limit body \<longrightarrow>
            wrap_response flt cmd (''ok'' # body) = Raise ValueError) \<and>
         (values_within_limit body \<longleftrightarrow>
            (\<forall>i < length body div 2.
               isdigit (body ! (2 * i + 1)) \<longrightarrow>
               length (body ! (2 * i + 1)) \<le> default_max_str_digits))"
proof (intro conjI impI)
  assume "odd (length body)"
  thus "wrap_response flt cmd (''ok'' # body) = Raise (RuntimeError ''Invalid response'')"
    by (simp add: int_map_dispatch [OF assms] to_int_map_eq)
next
  assume "even (length body) \<and> values_within_limit body"
  hence e: "even (length body)" and v: "values_within_limit body" by simp_all
  let ?m = "dict_insert_all [] (int_pairs body)"
  have r: "wrap_response flt cmd (''ok'' # body) = Return (VIntMap ?m)"
    using e v by (simp add: int_map_dispatch [OF assms] to_int_map_eq)
  have d: "distinct (map fst ?m)" by (rule dict_insert_all_distinct) simp
  have "fst ` set (int_pairs body) = (\<lambda>i. body ! (2 * i)) ` {..<length body div 2}"
    by (simp add: int_pairs_def image_image lessThan_atLeast0)
  hence k: "fst ` set ?m = (\<lambda>i. body ! (2 * i)) ` {..<length body div 2}"
    by (simp add: dict_insert_all_keys)
  have l: "map_of ?m k = map_of (rev (int_pairs body)) k" for k
    by (simp add: dict_insert_all_lookup split: option.splits)
  have o: "?m = int_pairs body" if "distinct (map fst (int_pairs body))"
    using dict_insert_all_fresh [OF that, of "[]"] by simp
  from r d k l o
  show "\<exists>m. wrap_response flt cmd (''ok'' # body) = Return (VIntMap m) \<and>
               distinct (map fst m) \<and>
               fst ` set m = (\<lambda>i. body ! (2 * i)) ` {..<length body div 2} \<and>
               (\<forall>k. map_of m k = map_of (rev (int_pairs body)) k) \<and>
               (distinct (map fst (int_pairs body)) \<longrightarrow> m = int_pairs body)"
    by blast
next
  assume "even (length body) \<and> \<not> values_within_limit body"
  thus "wrap_response flt cmd (''ok'' # body) = Raise ValueError"
    by (simp add: int_map_dispatch [OF assms] to_int_map_eq)
next
  show "values_within_limit body \<longleftrightarrow>
            (\<forall>i < length body div 2.
               isdigit (body ! (2 * i + 1)) \<longrightarrow>
               length (body ! (2 * i + 1)) \<le> default_max_str_digits)"
    by (auto simp: values_within_limit_iff over_limit_def not_less)
qed

theorem int_map_response_witness:
  "wrap_response no_float ''zrange'' [''ok'', ''a'', ''10'', ''b'', ''x2'', ''c'', [], ''d'', ''007'']
     = Return (VIntMap [(''a'', 10), (''b'', - 1), (''c'', - 1), (''d'', 7)]) \<and>
   wrap_response no_float ''zrange'' [''ok'', ''a'', ''1'', ''b'']
     = Raise (RuntimeError ''Invalid response'')"
proof -
  have c: "''zrange'' \<in> REQUEST_FOR_INT_MAP_RESPONSE"
    by (simp add: REQUEST_FOR_INT_MAP_RESPONSE_def)
  have p: "int_pairs [''a'', ''10'', ''b'', ''x2'', ''c'', [], ''d'', ''007'']
             = [(''a'', 10), (''b'', - 1), (''c'', - 1), (''d'', 7)]"
    by code_simp
  have v: "values_within_limit [''a'', ''10'', ''b'', ''x2'', ''c'', [], ''d'', ''007'']"
    by code_simp
  from int_map_response [OF c, of "[''a'', ''10'', ''b'', ''x2'', ''c'', [], ''d'', ''007'']" no_float,
      THEN conjunct2, THEN conjunct1] v
  have "wrap_response no_float ''zrange'' [''ok'', ''a'', ''10'', ''b'', ''x2'', ''c'', [], ''d'', ''007'']
     = Return (VIntMap [(''a'', 10), (''b'', - 1), (''c'', - 1), (''d'', 7)])"
    by (auto simp: p)
  moreover from int_map_response [OF c, of "[''a'', ''1'', ''b'']" no_float, THEN conjunct1]
  have "wrap_response no_float ''zrange'' [''ok'', ''a'', ''1'', ''b'']
     = Raise (RuntimeError ''Invalid response'')"
    by simp
  ultimately show ?thesis by simp
qed

text \<open>
  The claim as it was stated (the integer of every blob of ASCII digits) fails for a value
  of 4301 digits: \<^verbatim>\<open>int\<close> raises, and no dictionary is returned.
\<close>

theorem int_map_long_value:
  "wrap_response no_float ''zrange''
     [''ok'', ''a'', replicate (Suc default_max_str_digits) (CHR ''1'')] = Raise ValueError"
proof -
  have c: "''zrange'' \<in> REQUEST_FOR_INT_MAP_RESPONSE"
    by (simp add: REQUEST_FOR_INT_MAP_RESPONSE_def)
  have "over_limit (replicate (Suc default_max_str_digits) (CHR ''1''))"
    by (simp add: over_limit_def isdigit_def is_digit_def list_all_iff)
  hence "\<not> values_within_limit [''a'', replicate (Suc default_max_str_digits) (CHR ''1'')]"
    by (simp add: values_within_limit_def)
  thus ?thesis by (simp add: int_map_dispatch [OF c] to_int_map_eq)
qed

lemma to_int_map_for_scan_eq:
  "to_int_map_for_scan resp =
     (if odd (length resp) then Raise (RuntimeError ''Invalid response'')
      else if resp = [] then Return (VIntScan None [])
      else if values_within_limit resp
        then Return (VIntScan (Some (resp ! (length resp - 2))) (dict_insert_all [] (int_pairs resp)))
      else Raise ValueError)"
proof (cases "odd (length resp)")
  case True
  thus ?thesis by (simp add: to_int_map_for_scan_def Let_def odd_iff_mod_2_eq_one)
next
  case False
  hence e: "even (length resp)" by simp
  from int_map_loop_eq [OF refl e, of 0 "[]"] e show ?thesis
    by (simp add: to_int_map_for_scan_def Let_def int_pairs_def values_within_limit_iff)
qed

lemma wrap_response_nonempty:
  "wrap_response flt cmd (status # resp) \<noteq> Raise (ConnectionError m)"
  by (simp add: wrap_response_def to_str_map_def to_int_map_eq to_str_map_for_scan_def
      to_int_map_for_scan_eq Let_def split: list.split option.split)

text \<open>
  Claim C6, amended. \<^verbatim>\<open>wrap_response\<close> raises \<^verbatim>\<open>ConnectionError\<close> exactly for the empty frame;
  a first blob \<^verbatim>\<open>not_found\<close> returns \<^verbatim>\<open>None\<close>; a first blob that is neither \<^verbatim>\<open>ok\<close> nor
  \<^verbatim>\<open>not_found\<close> raises \<^verbatim>\<open>RuntimeError\<close> with the status as its text when the status is
  well-formed UTF-8, and \<^verbatim>\<open>UnicodeDecodeError\<close> when it is not; and when the status is not
  \<^verbatim>\<open>ok\<close> the result depends neither on the command nor on the body.
\<close>

theorem wrap_response_status:
  "((\<exists>m. wrap_response flt cmd frame = Raise (ConnectionError m)) \<longleftrightarrow> frame = []) \<and>
   wrap_response flt cmd (''not_found'' # body) = Return VNone \<and>
   (status \<noteq> ''ok'' \<longrightarrow> status \<noteq> ''not_found'' \<longrightarrow>
      wrap_response flt cmd (status # body) =
        (if utf8_valid (map of_char status) then Raise (RuntimeError status)
         else Raise UnicodeDecodeError)) \<and>
   (status \<noteq> ''ok'' \<longrightarrow>
      wrap_response flt cmd (status # body) = wrap_response flt cmd' (status # body'))"
proof (intro conjI impI)
  show "(\<exists>m. wrap_response flt cmd frame = Raise (ConnectionError m)) \<longleftrightarrow> frame = []"
  proof (cases frame)
    case Nil
    thus ?thesis by (simp add: wrap_response_def)
  next
    case (Cons status resp)
    thus ?thesis using wrap_response_nonempty [of flt cmd status resp] by simp
  qed
next
  show "wrap_response flt cmd (''not_found'' # body) = Return VNone"
    by (simp add: wrap_response_def)
next
  assume "status \<noteq> ''ok''" "status \<noteq> ''not_found''"
  thus "wrap_response flt cmd (status # body) =
        (if utf8_valid (map of_char status) then Raise (RuntimeError status)
         else Raise UnicodeDecodeError)"
    by (simp add: wrap_response_def utf8_decode_def)
next
  assume "status \<noteq> ''ok''"
  thus "wrap_response flt cmd (status # body) = wrap_response flt cmd' (status # body')"
    by (simp add: wrap_response_def)
qed

theorem wrap_response_status_witness:
  "wrap_response no_float ''unknown_cmd'' [''error: unknown'']
     = Raise (RuntimeError ''error: unknown'') \<and>
   wrap_response no_float ''get'' [''not_found''] = Return VNone"
proof -
  have v: "utf8_valid (map of_char ''error: unknown'')" by code_simp
  have n: "''error: unknown'' \<noteq> ''ok''" "''error: unknown'' \<noteq> ''not_found''" by simp_all
  note t = wrap_response_status [of no_float "''unknown_cmd''" "[]" "[]" "''error: unknown''"]
  note u = wrap_response_status [of no_float "''get''" "[]" "[]" "''error: unknown''"]
  from t [THEN conjunct2, THEN conjunct2, THEN conjunct1] n v
  have "wrap_response no_float ''unknown_cmd'' [''error: unknown'']
     = Raise (RuntimeError ''error: unknown'')"
    by (simp only: if_True simp_thms)
  moreover from u [THEN conjunct2, THEN conjunct1]
  have "wrap_response no_float ''get'' [''not_found''] = Return VNone" .
  ultimately show ?thesis by (rule conjI)
qed

text \<open>
  The claim as it was stated (a \<^verbatim>\<open>RuntimeError\<close> for every status other than \<^verbatim>\<open>ok\<close> and
  \<^verbatim>\<open>not_found\<close>) fails for the one-byte status \<^verbatim>\<open>0xFF\<close>.
\<close>

theorem wrap_response_status_counterexample:
  "wrap_response no_float ''get'' [[CHR 0xFF]] = Raise UnicodeDecodeError"
  by (simp add: wrap_response_def utf8_decode_def)

text \<open>
  Claim C10. Whatever the command, a frame whose first blob is \<^verbatim>\<open>not_found\<close> returns
  \<^verbatim>\<open>None\<close>: the lookup in the response classes is not reached. A command of none of the
  classes raises "is unknown command" only when the status is \<^verbatim>\<open>ok\<close>.
\<close>

theorem not_found_before_lookup:
  "wrap_response flt cmd (''not_found'' # body) = Return VNone \<and>
   (\<not> known_command cmd \<longrightarrow>
      wrap_response flt cmd (''ok'' # body) = Raise (RuntimeError (cmd @ '' is unknown command'')))"
  by (simp add: wrap_response_def known_command_def)

theorem not_found_before_lookup_witness:
  "wrap_response no_float ''unknown_cmd'' [''not_found''] = Return VNone \<and>
   wrap_response no_float ''unknown_cmd'' [''ok'']
     = Raise (RuntimeError ''unknown_cmd is unknown command'')"
proof -
  have "\<not> known_command ''unknown_cmd''"
    by (simp add: known_command_def REQUEST_FOR_NO_RESPONSE_def REQUEST_FOR_INT_RESPONSE_def
        REQUEST_FOR_FLOAT_RESPONSE_def REQUEST_FOR_BYTE_RESPONSE_def
        REQUEST_FOR_LIST_RESPONSE_def REQUEST_FOR_STR_MAP_RESPONSE_def
        REQUEST_FOR_INT_MAP_RESPONSE_def REQUEST_FOR_STR_MAP_SCAN_RESPONSE_def
        REQUEST_FOR_INT_MAP_SCAN_RESPONSE_def)
  with not_found_before_lookup [of no_float "''unknown_cmd''" "[]"] show ?thesis by simp
qed

section \<open>Properties of connections and the pool\<close>

subsection \<open>The password handshake\<close>

text \<open>
  Claim C5 asks that \<^verbatim>\<open>connect()\<close> with a password sends \<^verbatim>\<open>auth\<close>, reads one frame, and turns
  every failure into "Invalid password" with a disconnect. In the code the call
  \<^verbatim>\<open>send_command("auth", self.password)\<close> passes a \<^verbatim>\<open>str\<close> where a tuple is declared: on a
  connection that is not yet connected, with a password, and with the socket opening, the
  method raises \<^verbatim>\<open>TypeError\<close>; the only I/O is the opening of the socket (nothing is written
  or read), and the connection is left connected.
\<close>

theorem connect_with_password:
  assumes "\<not> connected c" "password c = Some pw" "opens w = [] \<or> hd (opens w) = None"
  shows "connect (c, w) =
           (Raise TypeError,
            (c\<lparr>connected := True\<rparr>, w\<lparr>trace := trace w @ [Open], opens := tl (opens w)\<rparr>))"
  using assms
  by (cases "opens w")
     (auto simp: connect_def is_connected_def send_command_def then_do_def Let_def)

theorem connect_with_password_witness:
  "connect (Connection_init (Some ''secret'') quiet_world, quiet_world) =
     (Raise TypeError,
      (Connection_init (Some ''secret'') quiet_world\<lparr>connected := True\<rparr>,
       quiet_world\<lparr>trace := [Open]\<rparr>))"
  using connect_with_password [of "Connection_init (Some ''secret'') quiet_world" "''secret''" quiet_world]
  by (simp add: Connection_init_def quiet_world_def)

subsection \<open>What the methods of a connection leave unchanged\<close>

lemma steady_refl [simp]: "steady cw cw"
  by (simp add: steady_def)

lemma steady_trans: "steady a b \<Longrightarrow> steady b c \<Longrightarrow> steady a c"
  by (simp add: steady_def)

lemma then_do_steady:
  assumes "steady cw (snd m)" "\<And>x cw1. steady cw cw1 \<Longrightarrow> steady cw (snd (k x cw1))"
  shows "steady cw (snd (then_do m k))"
proof -
  obtain r cw1 where m: "m = (r, cw1)" by (cases m)
  with assms show ?thesis by (cases r) (auto simp: then_do_def)
qed

lemma on_raise_steady:
  assumes "steady cw (snd m)" "\<And>e cw1. steady cw cw1 \<Longrightarrow> steady cw (snd (h e cw1))"
  shows "steady cw (snd (on_raise m h))"
proof -
  obtain r cw1 where m: "m = (r, cw1)" by (cases m)
  with assms show ?thesis by (cases r) (auto simp: on_raise_def)
qed

lemma read_from_socket_steady: "steady cw (snd (read_from_socket wait cw))"
  by (auto simp: read_from_socket_def steady_def opened_def Let_def
      split: prod.splits list.splits read_event.splits outcome.splits)

lemma parser_get_steady: "steady cw (snd (parser_get cw))"
  by (auto simp: parser_get_def steady_def split: prod.splits)

lemma read_loop_steady: "steady cw (snd (read_loop resp cw))"
proof (induction resp cw rule: read_loop.induct)
  case (1 resp cw)
  show ?case
  proof (cases resp)
    case (Some frame)
    thus ?thesis by (subst read_loop.simps) simp
  next
    case None
    obtain r cw1 where a: "read_from_socket True cw = (r, cw1)" by (cases "read_from_socket True cw")
    have s1: "steady cw cw1" using read_from_socket_steady [of cw True] a by simp
    show ?thesis
    proof (cases r)
      case (Return x)
      obtain r2 cw2 where b: "parser_get cw1 = (r2, cw2)" by (cases "parser_get cw1")
      have s2: "steady cw1 cw2" using parser_get_steady [of cw1] b by simp
      show ?thesis
      proof (cases r2)
        case (Return resp')
        from "1.IH" [OF None a [unfolded \<open>r = Return x\<close>, symmetric] refl b [unfolded Return, symmetric] refl]
        have "steady cw2 (snd (read_loop resp' cw2))" .
        with s1 s2 have "steady cw (snd (read_loop resp' cw2))" by (blast intro: steady_trans)
        thus ?thesis using None a b Return \<open>r = Return x\<close> by (subst read_loop.simps) simp
      qed (use None a b s1 s2 \<open>r = Return x\<close> in \<open>auto simp: read_loop.simps intro: steady_trans\<close>)
    qed (use None a s1 in \<open>auto simp: read_loop.simps\<close>)
  qed
qed

lemma read_response_steady: "steady cw (snd (read_response cw))"
proof -
  obtain c w where cw: "cw = (c, w)" by (cases cw)
  show ?thesis
  proof (cases "next_response c")
    case (Some resp)
    thus ?thesis by (simp add: read_response_def cw steady_def)
  next
    case None
    have "steady cw (snd (then_do (parser_get cw) read_loop))"
      by (rule then_do_steady [OF parser_get_steady])
         (blast intro: steady_trans read_loop_steady)
    with None show ?thesis by (simp add: read_response_def cw)
  qed
qed

lemma send_command_steady: "steady cw (snd (send_command cmd args cw))"
  by (auto simp: send_command_def steady_def opened_def Let_def
      split: prod.splits pyobj.splits outcome.splits list.splits option.splits)

lemma disconnect_steady: "steady cw (snd (disconnect cw))"
  by (auto simp: disconnect_def steady_def opened_def Let_def
      split: prod.splits list.splits option.splits)

lemma in_use_steady: "steady cw (snd (in_use cw))"
  unfolding in_use_def
proof (rule then_do_steady, goal_cases)
  case 1
  obtain c w where cw: "cw = (c, w)" by (cases cw)
  show ?case
  proof (cases "next_response c = None")
    case True
    have "steady cw (snd (then_do (parser_get cw)
            (\<lambda>resp cw1. case cw1 of (c1, w1) \<Rightarrow> (Return (), (c1\<lparr>next_response := resp\<rparr>, w1)))))"
      by (rule then_do_steady [OF parser_get_steady]) (auto simp: steady_def)
    with True show ?thesis by (simp add: cw)
  next
    case False
    thus ?thesis by (auto simp: cw)
  qed
next
  case (2 x cw1)
  show ?case
  proof (cases "next_response (fst cw1) = None")
    case True
    have "steady cw (snd (on_raise (read_from_socket False cw1)
              (\<lambda>e cw2. then_do (disconnect cw2) (\<lambda>_ cw3. (Raise e, cw3)))))"
    proof (rule on_raise_steady, goal_cases)
      case 1
      show ?case using 2 read_from_socket_steady [of cw1 False] by (blast intro: steady_trans)
    next
      case (2 e cw2)
      show ?case
        by (rule then_do_steady) (use 2 disconnect_steady [of cw2] in \<open>auto intro: steady_trans\<close>)
    qed
    with True show ?thesis by simp
  next
    case False
    with 2 show ?thesis by auto
  qed
qed

lemma connect_ids:
  "pid (fst (snd (connect cw))) = pid (fst cw) \<and> getpid (snd (snd (connect cw))) = getpid (snd cw)"
proof -
  obtain c w where cw: "cw = (c, w)" by (cases cw)
  let ?w1 = "w\<lparr>trace := trace w @ [Open], opens := tl (opens w)\<rparr>"
  let ?c1 = "c\<lparr>connected := True\<rparr>"
  have "steady (?c1, ?w1)
          (snd (then_do (send_command ''auth'' (PyStr pw) (?c1, ?w1))
                    (\<lambda>_ cw2.
                       on_raise (then_do (read_response cw2) (\<lambda>_ cw3. (Return (), cw3)))
                         (\<lambda>e cw3. (Raise (RuntimeError ''Invalid password''), cw3)))))" for pw
  proof (rule then_do_steady [OF send_command_steady], goal_cases)
    case (1 x cw1)
    show ?case
    proof (rule on_raise_steady, goal_cases)
      case 1
      show ?case
        by (rule then_do_steady) (use \<open>steady (?c1, ?w1) cw1\<close> read_response_steady [of cw1] in \<open>auto intro: steady_trans\<close>)
    next
      case (2 e cw3)
      thus ?case by simp
    qed
  qed
  thus ?thesis
    by (auto simp: connect_def cw Let_def steady_def split: option.splits list.splits)
qed

lemma connect_effect:
  "pid (fst (snd (connect cw))) = pid (fst cw) \<and> getpid (snd (snd (connect cw))) = getpid (snd cw) \<and>
   opened (snd (snd (connect cw))) = opened (snd cw) + (if connected (fst cw) then 0 else 1)"
proof -
  obtain c w where cw: "cw = (c, w)" by (cases cw)
  let ?w1 = "w\<lparr>trace := trace w @ [Open], opens := tl (opens w)\<rparr>"
  let ?c1 = "c\<lparr>connected := True\<rparr>"
  have "steady (?c1, ?w1)
          (snd (then_do (send_command ''auth'' (PyStr pw) (?c1, ?w1))
                    (\<lambda>_ cw2.
                       on_raise (then_do (read_response cw2) (\<lambda>_ cw3. (Return (), cw3)))
                         (\<lambda>e cw3. (Raise (RuntimeError ''Invalid password''), cw3)))))" for pw
  proof (rule then_do_steady [OF send_command_steady], goal_cases)
    case (1 x cw1)
    show ?case
    proof (rule on_raise_steady, goal_cases)
      case 1
      show ?case
        by (rule then_do_steady) (use \<open>steady (?c1, ?w1) cw1\<close> read_response_steady [of cw1] in \<open>auto intro: steady_trans\<close>)
    next
      case (2 e cw3)
      thus ?case by simp
    qed
  qed
  thus ?thesis
    by (auto simp: connect_def is_connected_def cw Let_def steady_def opened_def
        split: option.splits list.splits)
qed

lemma disconnect_Return: "disconnect cw = (Return x, cw') \<Longrightarrow> \<not> connected (fst cw')"
  by (auto simp: disconnect_def is_connected_def Let_def split: prod.splits if_splits option.splits list.splits)

lemma on_conn_parts:
  "pool (snd (on_conn f r s)) = pool s"
  "length (heap (snd (on_conn f r s))) = length (heap s)"
  "world (snd (on_conn f r s)) = snd (snd (f (heap s ! r, world s)))"
  "r < length (heap s) \<Longrightarrow> heap (snd (on_conn f r s)) ! r = fst (snd (f (heap s ! r, world s)))"
  "r' \<noteq> r \<Longrightarrow> heap (snd (on_conn f r s)) ! r' = heap s ! r'"
  "fst (on_conn f r s) = fst (f (heap s ! r, world s))"
  by (auto simp: on_conn_def split: prod.splits)












subsection \<open>Pool accounting\<close>


lemmas model_defs =
  get_connection_def acquire_def checkpid_def fresh_system_def ConnectionPool_init_def
  reset_def make_connection_def INT32_MAX_def lease_io_def on_conn_def connect_def
  is_connected_def Connection_init_def quiet_world_def then_do_def
  on_raise_def release_def owns_connection_def Let_def in_use_def parser_get_def
  Reader_get_def parse_def parse_loop.simps Buffer_cinit_def read_from_socket_def
  disconnect_def is_ConnectionError_def is_OSError_def step_def




subsection \<open>The lease: probe, one reconnect, release on failure\<close>

lemma then_do_snd_opens:
  assumes "opens_made (snd m) = n" "\<And>x s1. opens_made s1 = n \<Longrightarrow> opens_made (snd (k x s1)) = n"
  shows "opens_made (snd (then_do m k)) = n"
proof -
  obtain res s1 where "m = (res, s1)" by (cases m)
  with assms show ?thesis by (cases res) (auto simp: then_do_def)
qed

lemma on_conn_steady_opens:
  assumes "\<And>cw. steady cw (snd (f cw))"
  shows "opens_made (snd (on_conn f r s)) = opens_made s"
  using assms [of "(heap s ! r, world s)"]
  by (simp add: opens_made_def on_conn_parts(3) steady_def)

lemma reconnect_once_opens:
  assumes "r < length (heap s2)" "on_conn disconnect r s2 = (Return (), s3)"
  shows "opens_made (snd (reconnect_once r s2)) = opens_made s2 + 1"
proof -
  have o3: "opens_made s3 = opens_made s2"
    using on_conn_steady_opens [of disconnect r s2] disconnect_steady assms(2) by simp
  have h3: "heap s3 ! r = fst (snd (disconnect (heap s2 ! r, world s2)))"
    using on_conn_parts(4) [where f = disconnect, OF assms(1)] assms(2) by simp
  have "fst (disconnect (heap s2 ! r, world s2)) = Return ()"
    using on_conn_parts(6) [where f = disconnect and r = r and s = s2] assms(2) by simp
  hence "\<not> connected (heap s3 ! r)"
    using disconnect_Return [of "(heap s2 ! r, world s2)" "()" "snd (disconnect (heap s2 ! r, world s2))"] h3
    by (cases "disconnect (heap s2 ! r, world s2)") auto
  hence o4: "opens_made (snd (on_conn connect r s3)) = opens_made s2 + 1"
    using connect_effect [of "(heap s3 ! r, world s3)"] o3
    by (simp add: opens_made_def on_conn_parts(3))
  have "opens_made (snd (then_do (on_conn connect r s3)
            (\<lambda>_ s4.
               then_do (on_conn in_use r s4)
                 (\<lambda>b s5. if b then (Raise (ConnectionError ''Connection not ready''), s5)
                          else (Return (), s5))))) = opens_made s2 + 1"
  proof (rule then_do_snd_opens [OF o4], goal_cases)
    case (1 x s4)
    show ?case
    proof (rule then_do_snd_opens, goal_cases)
      case 1
      show ?case using on_conn_steady_opens [of in_use r s4] in_use_steady \<open>opens_made s4 = opens_made s2 + 1\<close>
        by simp
    next
      case (2 b s5)
      thus ?case by simp
    qed
  qed
  thus ?thesis using assms(2) by (simp add: reconnect_once_def then_do_def)
qed

lemma release_not_in_use: "r \<notin> in_use_connections (pool (snd (release r s)))"
  by (auto simp: release_def Let_def checkpid_def reset_def on_conn_parts(1))

lemmas parse_eval = parse_def parse_loop.simps memchr_def atoi_def is_digit_def to_int32_def
  digit_val_def INT_MAX_def remove_def

lemma get_two_frames:
  "Reader_get \<lparr>data = ''2\<newline>ok\<newline>\<newline>2\<newline>ok\<newline>\<newline>'', cap = 8192\<rparr>
     = (Return (Some [''ok'']), \<lparr>data = ''2\<newline>ok\<newline>\<newline>'', cap = 8192\<rparr>)"
  by (simp add: Reader_get_def parse_eval)

lemma get_one_frame:
  "Reader_get \<lparr>data = ''2\<newline>ok\<newline>\<newline>'', cap = 8192\<rparr>
     = (Return (Some [''ok'']), \<lparr>data = [], cap = 8192\<rparr>)"
  by (simp add: Reader_get_def parse_eval)

lemma get_no_frame:
  "Reader_get \<lparr>data = [], cap = 8192\<rparr> = (Return None, \<lparr>data = [], cap = 8192\<rparr>)"
  by (simp add: Reader_get_def parse_eval)

lemma feed_two_frames:
  "Reader_feed always_ok \<lparr>data = [], cap = 8192\<rparr> ''2\<newline>ok\<newline>\<newline>2\<newline>ok\<newline>\<newline>''
     = (Return 12, \<lparr>data = ''2\<newline>ok\<newline>\<newline>2\<newline>ok\<newline>\<newline>'', cap = 8192\<rparr>)"
  by (simp add: Reader_feed_def put_def grow_def BUF_MAX_SIZE_def)

lemma lease_two_frames:
  "get_connection (fresh_system 0 None two_frames_world) =
     (Return 0,
      \<lparr>pool = \<lparr>pool_pid = 1, max_connections = 2147483647, kw_password = None,
                created_connections = 1, available_connections = [], in_use_connections = {0}\<rparr>,
       heap = [\<lparr>pid = 1, password = None, parser = \<lparr>data = [], cap = 8192\<rparr>,
                connected = True, next_response = None\<rparr>],
       world = \<lparr>getpid = 1, opens = [], reads = [ReadData ''2\<newline>ok\<newline>\<newline>2\<newline>ok\<newline>\<newline>''],
                writes = [], closes = [], realloc_ok = always_ok, trace = [Open, Read]\<rparr>\<rparr>)"
  by (simp add: two_frames_world_def model_defs INITIAL_BUF_SIZE_def)

lemma used_once_eq:
  "used_once =
      \<lparr>pool = \<lparr>pool_pid = 1, max_connections = 2147483647, kw_password = None,
                created_connections = 1, available_connections = [0], in_use_connections = {}\<rparr>,
       heap = [\<lparr>pid = 1, password = None, parser = \<lparr>data = ''2\<newline>ok\<newline>\<newline>'', cap = 8192\<rparr>,
                connected = True, next_response = None\<rparr>],
       world = \<lparr>getpid = 1, opens = [], reads = [],
                writes = [], closes = [], realloc_ok = always_ok, trace = [Open, Read, Read]\<rparr>\<rparr>"
  by (simp add: used_once_def lease_two_frames on_conn_def read_response_def parser_get_def
      then_do_def read_loop.simps read_from_socket_def get_no_frame get_two_frames
      feed_two_frames Let_def release_def checkpid_def owns_connection_def)

lemma leased_again_eq:
  "acquire (checkpid used_once) = (Return 0, leased_again) \<and>
   leased_again =
      \<lparr>pool = \<lparr>pool_pid = 1, max_connections = 2147483647, kw_password = None,
                created_connections = 1, available_connections = [], in_use_connections = {0}\<rparr>,
       heap = [\<lparr>pid = 1, password = None, parser = \<lparr>data = ''2\<newline>ok\<newline>\<newline>'', cap = 8192\<rparr>,
                connected = True, next_response = None\<rparr>],
       world = \<lparr>getpid = 1, opens = [], reads = [],
                writes = [], closes = [], realloc_ok = always_ok, trace = [Open, Read, Read]\<rparr>\<rparr>"
  by (simp add: leased_again_def used_once_eq acquire_def checkpid_def then_do_def)

lemma leased_again_connect: "on_conn connect 0 leased_again = (Return (), leased_again)"
  by (simp add: leased_again_eq on_conn_def connect_def is_connected_def)

lemma leased_again_probe:
  "on_conn in_use 0 leased_again = (Return True, snd (on_conn in_use 0 leased_again))"
  by (simp add: leased_again_eq on_conn_def in_use_def parser_get_def then_do_def get_one_frame)

lemma leased_again_reconnect:
  "fst (reconnect_once 0 (snd (on_conn in_use 0 leased_again)))
     = Raise (ConnectionError ''Connection not ready'') \<and>
   trace (world (snd (reconnect_once 0 (snd (on_conn in_use 0 leased_again)))))
     = [Open, Read, Read, Close, Open]"
  by (simp add: leased_again_eq reconnect_once_def on_conn_def in_use_def parser_get_def
      then_do_def get_one_frame disconnect_def connect_def is_connected_def Let_def)

text \<open>
  Claim C4, amended. In a lease, a first \<^verbatim>\<open>connect()\<close> that raises ends the lease with that
  exception: it is not retried. After a first \<^verbatim>\<open>connect()\<close> that returns, a probe that
  reports no data ends the lease with the connection; a probe that reports data, or that
  raises a \<^verbatim>\<open>ConnectionError\<close>, is followed by one reconnect (disconnect, connect, probe
  again); a probe that raises anything else ends the lease with that exception. In the
  reconnect, a second probe that still reports data raises "Connection not ready", and
  when the disconnect returns the socket is opened exactly once more. Whenever the lease
  raises after the connection was acquired, \<^verbatim>\<open>release\<close> has run on it before the exception
  leaves \<^verbatim>\<open>get_connection\<close>, and the connection is no longer in use.
\<close>

theorem lease_retry:
  "(on_conn connect r s = (Raise e, s1) \<longrightarrow> lease_io r s = (Raise e, s1)) \<and>
   (on_conn connect r s = (Return (), s1) \<longrightarrow>
      (on_conn in_use r s1 = (Return False, s2) \<longrightarrow> lease_io r s = (Return (), s2)) \<and>
      (on_conn in_use r s1 = (Return True, s2) \<or>
       on_conn in_use r s1 = (Raise (ConnectionError m), s2) \<longrightarrow>
         lease_io r s = reconnect_once r s2) \<and>
      (on_conn in_use r s1 = (Raise e, s2) \<and> \<not> is_ConnectionError e \<longrightarrow>
         lease_io r s = (Raise e, s2))) \<and>
   (on_conn disconnect r s2 = (Return (), s3) \<and> on_conn connect r s3 = (Return (), s4) \<longrightarrow>
      (on_conn in_use r s4 = (Return True, s5) \<longrightarrow>
         reconnect_once r s2 = (Raise (ConnectionError ''Connection not ready''), s5)) \<and>
      (on_conn in_use r s4 = (Return False, s5) \<longrightarrow> reconnect_once r s2 = (Return (), s5))) \<and>
   (r < length (heap s2) \<and> on_conn disconnect r s2 = (Return (), s3) \<longrightarrow>
      opens_made (snd (reconnect_once r s2)) = opens_made s2 + 1) \<and>
   (acquire (checkpid s0) = (Return r, sa) \<and> lease_io r sa = (Raise e, sb) \<longrightarrow>
      get_connection s0 = then_do (release r sb) (\<lambda>_ sc. (Raise e, sc)) \<and>
      r \<notin> in_use_connections (pool (snd (get_connection s0))))"
proof (intro conjI impI, goal_cases)
  case 1
  thus ?case by (simp add: lease_io_def then_do_def)
next
  case 2
  thus ?case by (simp add: lease_io_def then_do_def on_raise_def)
next
  case 3
  thus ?case
    by (auto simp: lease_io_def reconnect_once_def then_do_def on_raise_def is_ConnectionError_def)
next
  case 4
  thus ?case by (simp add: lease_io_def then_do_def on_raise_def)
next
  case 5
  thus ?case by (simp add: reconnect_once_def then_do_def)
next
  case 6
  thus ?case by (simp add: reconnect_once_def then_do_def)
next
  case 7
  thus ?case using reconnect_once_opens [of r s2 s3] by simp
next
  case 8
  thus ?case by (simp add: get_connection_def then_do_def on_raise_def)
next
  case 9
  hence g: "get_connection s0 = then_do (release r sb) (\<lambda>_ sc. (Raise e, sc))"
    by (simp add: get_connection_def then_do_def on_raise_def)
  have "snd (get_connection s0) = snd (release r sb)"
    unfolding g by (cases "release r sb", cases "fst (release r sb)") (auto simp: then_do_def)
  with release_not_in_use [of r sb] show ?case by simp
qed

theorem lease_retry_witness:
  "lease_io 0 leased_again = reconnect_once 0 (snd (on_conn in_use 0 leased_again)) \<and>
   fst (lease_io 0 leased_again) = Raise (ConnectionError ''Connection not ready'') \<and>
   trace (world (snd (lease_io 0 leased_again))) = [Open, Read, Read, Close, Open] \<and>
   0 \<notin> in_use_connections (pool (snd (get_connection used_once)))"
proof -
  note t = lease_retry [where r = 0 and s = leased_again and ?s1.0 = leased_again
      and ?s2.0 = "snd (on_conn in_use 0 leased_again)" and ?s0.0 = used_once
      and sa = leased_again and e = "ConnectionError ''Connection not ready''"
      and sb = "snd (lease_io 0 leased_again)"]
  from t [THEN conjunct2, THEN conjunct1, THEN mp, OF leased_again_connect,
      THEN conjunct2, THEN conjunct1] leased_again_probe
  have a: "lease_io 0 leased_again = reconnect_once 0 (snd (on_conn in_use 0 leased_again))"
    by (rule mp [OF _ disjI1])
  with leased_again_reconnect
  have b: "fst (lease_io 0 leased_again) = Raise (ConnectionError ''Connection not ready'')"
    and c: "trace (world (snd (lease_io 0 leased_again))) = [Open, Read, Read, Close, Open]"
    by simp_all
  from b have "lease_io 0 leased_again
      = (Raise (ConnectionError ''Connection not ready''), snd (lease_io 0 leased_again))"
    by (cases "lease_io 0 leased_again") simp
  with t [THEN conjunct2, THEN conjunct2, THEN conjunct2, THEN conjunct2] leased_again_eq
  have "0 \<notin> in_use_connections (pool (snd (get_connection used_once)))"
    by blast
  with a b c show ?thesis by simp
qed

text \<open>
  The claim as it was stated (one reconnect also when the connect step fails) fails in the
  world whose first connection attempt is refused: the lease ends with that error after a
  single attempt, although the next attempt would have succeeded.
\<close>

theorem lease_connect_failure_not_retried:
  "fst (get_connection (fresh_system 0 None refusing_world)) = Raise (ConnectionError ''refused'') \<and>
   trace (world (snd (get_connection (fresh_system 0 None refusing_world)))) = [Open] \<and>
   opens (world (snd (get_connection (fresh_system 0 None refusing_world)))) = [None] \<and>
   available_connections (pool (snd (get_connection (fresh_system 0 None refusing_world)))) = [0]"
  by (simp add: get_connection_def acquire_def checkpid_def fresh_system_def ConnectionPool_init_def
      reset_def make_connection_def INT32_MAX_def lease_io_def on_conn_def connect_def
      is_connected_def Connection_init_def refusing_world_def quiet_world_def then_do_def
      on_raise_def release_def owns_connection_def Let_def)


end
